theory Spec2Isabelle
  imports Main "HOL-Library.Word"
begin

section \<open>Length-prefixed msgpack messages over a socket (umsgpack\_conn.py)\<close>

text \<open>
  The module is Python 2 code: \<open>data = ''\<close> is a byte string, and so is what
  \<open>recv\<close> returns. A byte string is a list of 8-bit words, a Python integer is an
  \<open>int\<close>, an exception is a value of the type \<open>error\<close>.
\<close>

type_synonym byte = "8 word"
type_synonym bytes = "byte list"

datatype error =
    AssertionError
  | StructError
  | AttributeError
  | SocketError
  | CodecError
  | HandlerError

subsection \<open>Module constants\<close>

definition BUFFER_SIZE :: nat where
  "BUFFER_SIZE = 1024 * 8"

definition MAX_INT32 :: int where
  "MAX_INT32 = 2147483647"

subsection \<open>\<open>struct.pack("<I", n)\<close> and \<open>struct.unpack("<I", s)[0]\<close>\<close>

text \<open>
  \<open>struct.pack("<I", n)\<close> raises \<open>struct.error\<close> unless \<open>0 \<le> n < 2^32\<close>, and returns
  the four bytes of \<open>n\<close>, least significant first. \<open>struct.unpack("<I", s)\<close> raises
  \<open>struct.error\<close> unless \<open>s\<close> has exactly four bytes.
\<close>

definition struct_pack_I :: "int \<Rightarrow> error + bytes" where
  "struct_pack_I n =
     (if 0 \<le> n \<and> n < 4294967296
      then Inr [word_of_int n,
                word_of_int (n div 256),
                word_of_int (n div 65536),
                word_of_int (n div 16777216)]
      else Inl StructError)"

fun struct_unpack_I :: "bytes \<Rightarrow> error + int" where
  "struct_unpack_I [b0, b1, b2, b3] =
     Inr (uint b0 + 256 * uint b1 + 65536 * uint b2 + 16777216 * uint b3)"
| "struct_unpack_I _ = Inl StructError"

subsection \<open>Slices\<close>

text \<open>
  \<open>data[:n]\<close> and \<open>data[n:]\<close> for a Python integer \<open>n\<close>: a negative \<open>n\<close> counts
  from the end, and both clamp to the string.
\<close>

definition slice_to :: "int \<Rightarrow> 'a list \<Rightarrow> 'a list" where
  "slice_to n xs = (if 0 \<le> n then take (nat n) xs else take (length xs - nat (- n)) xs)"

definition slice_from :: "int \<Rightarrow> 'a list \<Rightarrow> 'a list" where
  "slice_from n xs = (if 0 \<le> n then drop (nat n) xs else drop (length xs - nat (- n)) xs)"

subsection \<open>\<open>UMsgPacker.pack_obj\<close>\<close>

text \<open>
  \<open>umsgpack.packb\<close> is the external codec: a parameter \<open>packb\<close>, which returns the
  serialized bytes or raises. The \<open>assert\<close> raises \<open>AssertionError\<close>.
\<close>

definition pack_obj :: "('obj \<Rightarrow> error + bytes) \<Rightarrow> 'obj \<Rightarrow> error + bytes" where
  "pack_obj packb obj =
     (case packb obj of
        Inl e \<Rightarrow> Inl e
      | Inr msg \<Rightarrow>
          if int (length msg) < MAX_INT32
          then (case struct_pack_I (int (length msg)) of
                  Inl e \<Rightarrow> Inl e
                | Inr msg_len_in_bytes \<Rightarrow> Inr (msg_len_in_bytes @ msg))
          else Inl AssertionError)"

subsection \<open>The connection\<close>

text \<open>
  The socket of a connection, as the receive loop sees it: \<open>pending\<close> are the byte
  strings that the next calls of \<open>recv(BUFFER_SIZE)\<close> return, in order (each has at
  most \<open>BUFFER_SIZE\<close> bytes on a real socket; nothing below depends on that bound).
  Once they are used up every further \<open>recv\<close> does \<open>at_end\<close>: it raises (the
  connection was reset, or the socket was closed locally), or it returns the empty
  string, which is what \<open>recv\<close> returns, again and again, after the peer has closed
  the connection in an orderly way. \<open>close\<close> on a Python 2 socket does not raise and
  may be repeated.
\<close>

datatype recv_result = Received bytes | RecvRaises

record connection =
  pending :: "bytes list"
  at_end :: recv_result
  closed :: bool

definition recv :: "connection \<Rightarrow> recv_result \<times> connection" where
  "recv conn =
     (case pending conn of
        [] \<Rightarrow> (at_end conn, conn)
      | rec # rest \<Rightarrow> (Received rec, conn\<lparr>pending := rest\<rparr>))"

definition close :: "connection \<Rightarrow> connection" where
  "close conn = conn\<lparr>closed := True\<rparr>"

subsection \<open>\<open>ConnectionHandler.run\<close>\<close>

text \<open>
  The four lines that read the length of the next message from the front of \<open>data\<close>
  (they occur twice in \<open>run\<close>): the result is the new \<open>data\<close> and \<open>number_of_bytes\<close>,
  or the exception of \<open>struct.unpack\<close> or of the \<open>assert\<close>.
\<close>

definition read_number_of_bytes :: "bytes \<Rightarrow> error + (bytes \<times> int)" where
  "read_number_of_bytes data =
     (case struct_unpack_I (slice_to 4 data) of
        Inl e \<Rightarrow> Inl e
      | Inr number_of_bytes \<Rightarrow>
          if number_of_bytes \<ge> 0
          then Inr (slice_from 4 data, number_of_bytes)
          else Inl AssertionError)"

text \<open>
  The inner \<open>while\<close> loop. It ends in one of three ways: \<open>recv\<close> raised and \<open>run\<close>
  returns; an exception leaves the loop; or the loop condition became false, with the
  \<open>data\<close> and \<open>number_of_bytes\<close> it ended with. A loop that never ends has the value
  \<open>None\<close>.
\<close>

datatype wait_exit =
    Disconnected connection
  | Failed error connection
  | Complete bytes int connection

partial_function (option) wait_for_message :: "bytes \<Rightarrow> int \<Rightarrow> connection \<Rightarrow> wait_exit option" where
  "wait_for_message data number_of_bytes conn =
     (if data = [] \<or> number_of_bytes = 0 \<or> int (length data) < number_of_bytes
      then (case recv conn of
              (RecvRaises, conn') \<Rightarrow> Some (Disconnected conn')
            | (Received rec, conn') \<Rightarrow>
                (let data' = data @ rec in
                 if number_of_bytes = 0 \<and> length data' \<ge> 4
                 then (case read_number_of_bytes data' of
                         Inl e \<Rightarrow> Some (Failed e conn')
                       | Inr (data'', number_of_bytes') \<Rightarrow>
                           wait_for_message data'' number_of_bytes' conn')
                 else wait_for_message data' number_of_bytes conn'))
      else Some (Complete data number_of_bytes conn))"

text \<open>
  \<open>_handle_msg\<close> decodes the message with the external \<open>umsgpack.unpackb\<close> and passes
  the value to \<open>_handle_decoded\<close>, which subclasses define. Both may raise; the handler
  has a state of its own.
\<close>

definition handle_msg ::
  "(bytes \<Rightarrow> error + 'v) \<Rightarrow> ('h \<Rightarrow> 'v \<Rightarrow> error + 'h) \<Rightarrow> 'h \<Rightarrow> bytes \<Rightarrow> error + 'h" where
  "handle_msg unpackb handle_decoded h msg_as_bytes =
     (case unpackb msg_as_bytes of
        Inl e \<Rightarrow> Inl e
      | Inr decoded \<Rightarrow> handle_decoded h decoded)"

text \<open>
  How \<open>run\<close> ended: it returned, or an exception left it. \<open>handled\<close> lists the
  arguments of the calls of \<open>_handle_msg\<close>, in order; \<open>conn_after\<close> is the
  connection as \<open>run\<close> leaves it and \<open>close_calls\<close> counts the calls of
  \<open>connection.close()\<close>.
\<close>

datatype outcome = Returned | Raised error

record 'h run_result =
  outcome :: outcome
  handled :: "bytes list"
  handler_state :: 'h
  conn_after :: connection
  close_calls :: nat

text \<open>The outer \<open>while True\<close> loop, from the values of \<open>data\<close> and \<open>number_of_bytes\<close>.\<close>

partial_function (option) run_loop ::
  "('h \<Rightarrow> bytes \<Rightarrow> error + 'h) \<Rightarrow> 'h \<Rightarrow> bytes list \<Rightarrow> bytes \<Rightarrow> int \<Rightarrow> connection
     \<Rightarrow> 'h run_result option" where
  "run_loop handler h log data number_of_bytes conn =
     (case (if number_of_bytes = 0 \<and> length data \<ge> 4
            then read_number_of_bytes data
            else Inr (data, number_of_bytes)) of
        Inl e \<Rightarrow>
          Some \<lparr>outcome = Raised e, handled = log, handler_state = h, conn_after = conn,
                close_calls = 0\<rparr>
      | Inr (data1, number_of_bytes1) \<Rightarrow>
          (case wait_for_message data1 number_of_bytes1 conn of
             None \<Rightarrow> None
           | Some (Disconnected conn') \<Rightarrow>
               Some \<lparr>outcome = Returned, handled = log, handler_state = h, conn_after = conn',
                     close_calls = 0\<rparr>
           | Some (Failed e conn') \<Rightarrow>
               Some \<lparr>outcome = Raised e, handled = log, handler_state = h, conn_after = conn',
                     close_calls = 0\<rparr>
           | Some (Complete data2 number_of_bytes2 conn') \<Rightarrow>
               (let msg = slice_to number_of_bytes2 data2;
                    data3 = slice_from number_of_bytes2 data2
                in case handler h msg of
                     Inl e \<Rightarrow>
                       Some \<lparr>outcome = Raised e, handled = log @ [msg], handler_state = h,
                             conn_after = conn', close_calls = 0\<rparr>
                   | Inr h' \<Rightarrow> run_loop handler h' (log @ [msg]) data3 0 conn')))"

text \<open>
  \<open>run\<close>: the loop starts from \<open>data = ''\<close> and \<open>number_of_bytes = 0\<close>; the
  \<open>finally\<close> block closes the connection however the loop was left.
\<close>

definition run :: "('h \<Rightarrow> bytes \<Rightarrow> error + 'h) \<Rightarrow> 'h \<Rightarrow> connection \<Rightarrow> 'h run_result option" where
  "run handler h connection =
     (case run_loop handler h [] [] 0 connection of
        None \<Rightarrow> None
      | Some r \<Rightarrow> Some (r\<lparr>conn_after := close (conn_after r), close_calls := close_calls r + 1\<rparr>))"

declare wait_for_message.simps [code]
declare run_loop.simps [code]

text \<open>
  The same two loops, observed after a given number of calls of \<open>recv\<close>. With the budget
  used up, the inner loop stops where it would call \<open>recv\<close> again, with its \<open>data\<close> and
  \<open>number_of_bytes\<close>; otherwise it ends as above, and what is left of the budget is
  returned with the way it ended.
\<close>

datatype bounded_exit = Finished wait_exit nat | WaitingInRecv bytes int connection

fun wait_for_message_within :: "nat \<Rightarrow> bytes \<Rightarrow> int \<Rightarrow> connection \<Rightarrow> bounded_exit" where
  "wait_for_message_within 0 data number_of_bytes conn =
     (if data = [] \<or> number_of_bytes = 0 \<or> int (length data) < number_of_bytes
      then WaitingInRecv data number_of_bytes conn
      else Finished (Complete data number_of_bytes conn) 0)"
| "wait_for_message_within (Suc budget) data number_of_bytes conn =
     (if data = [] \<or> number_of_bytes = 0 \<or> int (length data) < number_of_bytes
      then (case recv conn of
              (RecvRaises, conn') \<Rightarrow> Finished (Disconnected conn') budget
            | (Received rec, conn') \<Rightarrow>
                (let data' = data @ rec in
                 if number_of_bytes = 0 \<and> length data' \<ge> 4
                 then (case read_number_of_bytes data' of
                         Inl e \<Rightarrow> Finished (Failed e conn') budget
                       | Inr (data'', number_of_bytes') \<Rightarrow>
                           wait_for_message_within budget data'' number_of_bytes' conn')
                 else wait_for_message_within budget data' number_of_bytes conn'))
      else Finished (Complete data number_of_bytes conn) (Suc budget))"

text \<open>
  What can be seen of \<open>run\<close> by then: it has ended, with its result; or it is still
  running, about to call \<open>recv\<close>, and has called \<open>_handle_msg\<close> with the messages
  listed, the handler being in the given state (the connection is not closed then: the
  \<open>finally\<close> block has not run).
\<close>

datatype 'h bounded_run = Ended "'h run_result" | StillRunning "bytes list" 'h bytes int connection

function run_loop_within ::
  "nat \<Rightarrow> ('h \<Rightarrow> bytes \<Rightarrow> error + 'h) \<Rightarrow> 'h \<Rightarrow> bytes list \<Rightarrow> bytes \<Rightarrow> int \<Rightarrow> connection
     \<Rightarrow> 'h bounded_run" where
  "run_loop_within budget handler h log data number_of_bytes conn =
     (case (if number_of_bytes = 0 \<and> length data \<ge> 4
            then read_number_of_bytes data
            else Inr (data, number_of_bytes)) of
        Inl e \<Rightarrow>
          Ended \<lparr>outcome = Raised e, handled = log, handler_state = h, conn_after = conn,
                 close_calls = 0\<rparr>
      | Inr (data1, number_of_bytes1) \<Rightarrow>
          (case wait_for_message_within budget data1 number_of_bytes1 conn of
             WaitingInRecv data2 number_of_bytes2 conn' \<Rightarrow>
               StillRunning log h data2 number_of_bytes2 conn'
           | Finished (Disconnected conn') budget' \<Rightarrow>
               Ended \<lparr>outcome = Returned, handled = log, handler_state = h, conn_after = conn',
                      close_calls = 0\<rparr>
           | Finished (Failed e conn') budget' \<Rightarrow>
               Ended \<lparr>outcome = Raised e, handled = log, handler_state = h, conn_after = conn',
                      close_calls = 0\<rparr>
           | Finished (Complete data2 number_of_bytes2 conn') budget' \<Rightarrow>
               (let msg = slice_to number_of_bytes2 data2;
                    data3 = slice_from number_of_bytes2 data2
                in case handler h msg of
                     Inl e \<Rightarrow>
                       Ended \<lparr>outcome = Raised e, handled = log @ [msg], handler_state = h,
                              conn_after = conn', close_calls = 0\<rparr>
                   | Inr h' \<Rightarrow> run_loop_within budget' handler h' (log @ [msg]) data3 0 conn')))"
  by pat_completeness auto
termination
proof -
  have F: "wait_for_message_within b d m c = Finished (Complete d2 m2 c2) b2 \<Longrightarrow>
      b2 \<le> b \<and> (b2 = b \<longrightarrow> d2 = d \<and> m2 = m) \<and> m2 \<noteq> 0 \<and> \<not> int (length d2) < m2"
    for b d m c d2 m2 c2 b2
  proof (induction b d m c rule: wait_for_message_within.induct)
    case (1 data number_of_bytes conn)
    then show ?case by (auto split: if_splits)
  next
    case (2 budget data number_of_bytes conn)
    show ?case
    proof (cases "data = [] \<or> number_of_bytes = 0 \<or> int (length data) < number_of_bytes")
      case False
      then show ?thesis using 2(3) by auto
    next
      case True
      obtain res conn' where r: "recv conn = (res, conn')" by (cases "recv conn")
      show ?thesis
      proof (cases res)
        case RecvRaises
        then show ?thesis using 2(3) True r by simp
      next
        case (Received rec)
        show ?thesis
        proof (cases "number_of_bytes = 0 \<and> 4 \<le> length (data @ rec)")
          case False
          then have "wait_for_message_within budget (data @ rec) number_of_bytes conn'
                       = Finished (Complete d2 m2 c2) b2"
            using 2(3) True r Received by (auto simp: Let_def)
          from 2(2) [OF True r [symmetric] Received refl False this]
          show ?thesis by auto
        next
          case hdr: True
          show ?thesis
          proof (cases "read_number_of_bytes (data @ rec)")
            case (Inl e)
            then show ?thesis using 2(3) True r Received hdr by (auto simp: Let_def)
          next
            case (Inr p)
            obtain d' m' where p: "p = (d', m')" by (cases p)
            then have "wait_for_message_within budget d' m' conn'
                         = Finished (Complete d2 m2 c2) b2"
              using 2(3) True r Received hdr Inr by (auto simp: Let_def)
            from 2(1) [OF True r [symmetric] Received refl hdr Inr p [symmetric] this]
            show ?thesis by auto
          qed
        qed
      qed
    qed
  qed
  have G: "b2 < b \<or> b2 = b \<and> (n \<noteq> 0 \<or> length (slice_from m2 d2) < length d)"
    if "(if n = 0 \<and> 4 \<le> length d then read_number_of_bytes d else Inr (d, n)) = Inr (d1, m1)"
      and "wait_for_message_within b d1 m1 c = Finished (Complete d2 m2 c2) b2"
    for b d n c d1 m1 d2 m2 c2 b2
  proof (cases "b2 = b \<and> n = 0")
    case False
    then show ?thesis using F [OF that(2)] by auto
  next
    case True
    then have same: "d2 = d1" "m2 = m1" and m2: "m2 \<noteq> 0" "\<not> int (length d2) < m2"
      using F [OF that(2)] by auto
    have "4 \<le> length d" using that(1) True same m2 by (auto split: if_splits)
    then have rd: "read_number_of_bytes d = Inr (d1, m1)" using that(1) True by simp
    then have "0 \<le> m1" "d1 = slice_from 4 d"
      by (auto simp: read_number_of_bytes_def split: sum.splits if_splits)
    then have "0 < m2" "length d2 \<le> length d" using same m2 by (auto simp: slice_from_def)
    then have "length (slice_from m2 d2) < length d"
      using m2 by (auto simp: slice_from_def)
    then show ?thesis using True by simp
  qed
  show ?thesis
    apply (relation "measures [\<lambda>(budget, handler, h, log, data, n, conn). budget,
                               \<lambda>(budget, handler, h, log, data, n, conn). if n = 0 then 0 else 1,
                               \<lambda>(budget, handler, h, log, data, n, conn). length data]")
    subgoal by simp
    subgoal for budget handler h log data number_of_bytes conn b x y x11 x12 x31 x32 x33 xa xb ba
      using G [of number_of_bytes data x y budget conn x31 x32 x33 x12] by auto
    done
qed


declare run_loop_within.simps [simp del]

text \<open>\<open>run\<close> within a number of calls of \<open>recv\<close>, and the messages handled by then.\<close>

definition run_within ::
  "nat \<Rightarrow> ('h \<Rightarrow> bytes \<Rightarrow> error + 'h) \<Rightarrow> 'h \<Rightarrow> connection \<Rightarrow> 'h bounded_run" where
  "run_within budget handler h connection =
     (case run_loop_within budget handler h [] [] 0 connection of
        Ended r \<Rightarrow> Ended (r\<lparr>conn_after := close (conn_after r), close_calls := close_calls r + 1\<rparr>)
      | StillRunning log h' data number_of_bytes conn \<Rightarrow>
          StillRunning log h' data number_of_bytes conn)"

fun handled_within :: "'h bounded_run \<Rightarrow> bytes list" where
  "handled_within (Ended r) = handled r"
| "handled_within (StillRunning log h data number_of_bytes conn) = log"

subsection \<open>\<open>Server\<close>\<close>

text \<open>
  The listening socket is an object that the attribute \<open>_sock\<close> of the server and the
  local variable \<open>sock\<close> of \<open>shutdown\<close> and \<open>_serve_forever\<close> refer to, so sockets
  live in a store, by address. An attribute of a Python object is absent, holds \<open>None\<close>
  or holds a reference. \<open>times_closed\<close> counts the calls of \<open>close()\<close> on a socket.
\<close>

record listen_socket =
  bound_port :: nat
  is_closed :: bool
  times_closed :: nat

datatype attribute = Unset | PyNone | Object nat

text \<open>
  The fields of a \<open>Server\<close> that the methods below use: \<open>_block\<close>, the flag of
  \<open>_shutdown_event\<close> and \<open>_sock\<close>. \<open>started\<close> lists the connections whose handler
  thread was started and \<open>tracebacks\<close> counts the calls of \<open>traceback.print_exc()\<close>.
\<close>

record server =
  block :: "bool option"
  shutdown_event :: bool
  sock_attr :: attribute
  sockets :: "nat \<Rightarrow> listen_socket option"
  started :: "nat list"
  tracebacks :: nat

text \<open>\<open>Server.__init__\<close>: no \<open>_sock\<close> attribute yet.\<close>

definition init_server :: server where
  "init_server =
     \<lparr>block = None, shutdown_event = False, sock_attr = Unset, sockets = (\<lambda>_. None),
      started = [], tracebacks = 0\<rparr>"

text \<open>\<open>getattr(self, '_sock', None)\<close>\<close>

definition getattr_sock :: "server \<Rightarrow> nat option" where
  "getattr_sock s = (case sock_attr s of Object a \<Rightarrow> Some a | _ \<Rightarrow> None)"

text \<open>\<open>sock.close()\<close> on the socket at an address; closing a Python 2 socket does not raise.\<close>

definition close_socket :: "nat \<Rightarrow> server \<Rightarrow> server" where
  "close_socket a s =
     (case sockets s a of
        None \<Rightarrow> s
      | Some sk \<Rightarrow>
          s\<lparr>sockets := (sockets s)(a := Some (sk\<lparr>is_closed := True,
                                                  times_closed := times_closed sk + 1\<rparr>))\<rparr>)"

definition is_alive :: "server \<Rightarrow> bool" where
  "is_alive s =
     (case block s of
        None \<Rightarrow> False
      | Some _ \<Rightarrow> getattr_sock s \<noteq> None)"

definition shutdown :: "server \<Rightarrow> server" where
  "shutdown s =
     (let s1 = s\<lparr>shutdown_event := True\<rparr> in
      case getattr_sock s1 of
        None \<Rightarrow> s1
      | Some sock \<Rightarrow> close_socket sock (s1\<lparr>sock_attr := PyNone\<rparr>))"

text \<open>
  What happens around one pass of the accept loop, as far as the loop can see it:
  whether another thread calls \<open>shutdown()\<close> while \<open>select\<close> blocks; what \<open>select\<close>
  does (it raises, or returns with \<open>fd_sets[0]\<close> non-empty or empty); what \<open>accept\<close>
  does (it raises, or returns a connection); and whether constructing and starting the
  handler of the connection raises.
\<close>

record pass =
  shutdown_called :: bool
  select_result :: "error + bool"
  accept_result :: "error + nat"
  start_raises :: bool

text \<open>
  The \<open>while\<close> loop of \<open>_serve_forever\<close>, over the passes that happen. It ends
  because the loop was left by its condition or a \<open>break\<close>, or because an exception
  left it; when nothing more happens it stays blocked in \<open>select\<close>.
\<close>

datatype loop_exit = LoopLeft | LoopRaised error | BlockedInSelect

fun accept_loop :: "server \<Rightarrow> pass list \<Rightarrow> loop_exit \<times> server" where
  "accept_loop s [] =
     (if shutdown_event s then (LoopLeft, s)
      else (case sock_attr s of
              Unset \<Rightarrow> (LoopRaised AttributeError, s)
            | PyNone \<Rightarrow> (LoopLeft, s)
            | Object sock \<Rightarrow> (BlockedInSelect, s)))"
| "accept_loop s (p # ps) =
     (if shutdown_event s then (LoopLeft, s)
      else (case sock_attr s of
              Unset \<Rightarrow> (LoopRaised AttributeError, s)
            | PyNone \<Rightarrow> (LoopLeft, s)
            | Object sock \<Rightarrow>
                (let s1 = (if shutdown_called p then shutdown s else s) in
                 (case select_result p of
                    Inl e \<Rightarrow> (LoopRaised e, s1)
                  | Inr readable \<Rightarrow>
                      (if shutdown_event s1 then (LoopLeft, s1)
                       else (case sock_attr s1 of
                               Unset \<Rightarrow> (LoopRaised AttributeError, s1)
                             | PyNone \<Rightarrow> (LoopLeft, s1)
                             | Object sock1 \<Rightarrow>
                                 (if readable
                                  then (case accept_result p of
                                          Inl e \<Rightarrow> (LoopRaised e, s1)
                                        | Inr connection \<Rightarrow>
                                            (if start_raises p
                                             then accept_loop
                                                    (s1\<lparr>tracebacks := tracebacks s1 + 1\<rparr>) ps
                                             else accept_loop
                                                    (s1\<lparr>started := started s1 @ [connection]\<rparr>) ps))
                                  else accept_loop s1 ps)))))))"

text \<open>
  The \<open>try\<close> statement of \<open>_serve_forever\<close>: the loop, and \<open>self.shutdown()\<close> in the
  \<open>finally\<close> block once the loop is left.
\<close>

definition serve_loop_finally :: "server \<Rightarrow> pass list \<Rightarrow> loop_exit \<times> server" where
  "serve_loop_finally s ps =
     (case accept_loop s ps of
        (BlockedInSelect, s') \<Rightarrow> (BlockedInSelect, s')
      | (ex, s') \<Rightarrow> (ex, shutdown s'))"

text \<open>
  \<open>_serve_forever\<close>: the socket is created at a free address of the store and bound
  (\<open>bind\<close> raises, or gives the port the socket is bound to), then stored in \<open>_sock\<close>.
\<close>

definition p_serve_forever :: "server \<Rightarrow> nat \<Rightarrow> error + nat \<Rightarrow> pass list \<Rightarrow> loop_exit \<times> server" where
  "p_serve_forever s addr bind_result ps =
     (case bind_result of
        Inl e \<Rightarrow> (LoopRaised e, s)
      | Inr port \<Rightarrow>
          serve_loop_finally
            (s\<lparr>sockets := (sockets s)(addr := Some \<lparr>bound_port = port, is_closed = False,
                                                    times_closed = 0\<rparr>),
               sock_attr := Object addr\<rparr>) ps)"

subsection \<open>\<open>Server.get_port\<close>, \<open>wait_for_condition\<close> and \<open>assert_waited_condition\<close>\<close>

text \<open>
  \<open>wait_for_condition\<close> polls its condition, reading the clock after each failed check
  and sleeping before the next one. What it sees is a list of ticks, one for each failed
  check: the reading of \<open>time.time()\<close> taken then (in milliseconds, so that the timeout
  of \<open>5.0\<close> seconds is \<open>5000\<close>), and what the thread running \<open>_serve_forever\<close> does
  during the sleep that follows: nothing, or create the socket, bind it to a port and
  assign it to \<open>_sock\<close> (lines 160 to 168). \<open>initial\<close> is the first reading of the
  clock. When the ticks are used up and the condition is still false the function has not
  returned: \<open>None\<close>.
\<close>

record tick =
  clock :: int
  startup :: "(nat \<times> nat) option"

text \<open>\<open>hasattr(self, '_sock')\<close>\<close>

definition hasattr_sock :: "server \<Rightarrow> bool" where
  "hasattr_sock s = (sock_attr s \<noteq> Unset)"

definition assign_sock :: "nat \<Rightarrow> nat \<Rightarrow> server \<Rightarrow> server" where
  "assign_sock addr port s =
     s\<lparr>sockets := (sockets s)(addr := Some \<lparr>bound_port = port, is_closed = False,
                                               times_closed = 0\<rparr>),
       sock_attr := Object addr\<rparr>"

definition meanwhile :: "tick \<Rightarrow> server \<Rightarrow> server" where
  "meanwhile t s = (case startup t of None \<Rightarrow> s | Some (addr, port) \<Rightarrow> assign_sock addr port s)"

fun wait_for_condition ::
  "(server \<Rightarrow> bool) \<Rightarrow> int \<Rightarrow> int \<Rightarrow> server \<Rightarrow> tick list \<Rightarrow> bool option \<times> server" where
  "wait_for_condition condition timeout initial s [] =
     (if condition s then (Some True, s) else (None, s))"
| "wait_for_condition condition timeout initial s (t # ts) =
     (if condition s then (Some True, s)
      else if clock t - initial > timeout then (Some False, s)
      else wait_for_condition condition timeout initial (meanwhile t s) ts)"

text \<open>
  \<open>assert_waited_condition\<close> is the same loop, raising \<open>AssertionError\<close> at the timeout.
\<close>

fun assert_waited_condition ::
  "(server \<Rightarrow> bool) \<Rightarrow> int \<Rightarrow> int \<Rightarrow> server \<Rightarrow> tick list \<Rightarrow> (error + unit) option \<times> server" where
  "assert_waited_condition condition timeout initial s [] =
     (if condition s then (Some (Inr ()), s) else (None, s))"
| "assert_waited_condition condition timeout initial s (t # ts) =
     (if condition s then (Some (Inr ()), s)
      else if clock t - initial > timeout then (Some (Inl AssertionError), s)
      else assert_waited_condition condition timeout initial (meanwhile t s) ts)"

text \<open>
  \<open>self._sock.getsockname()[1]\<close>: reading \<open>_sock\<close> raises \<open>AttributeError\<close> when the
  attribute is absent, and so does \<open>getsockname\<close> on \<open>None\<close>; a closed socket raises a
  socket error.
\<close>

definition getsockname_port :: "server \<Rightarrow> error + nat" where
  "getsockname_port s =
     (case sock_attr s of
        Unset \<Rightarrow> Inl AttributeError
      | PyNone \<Rightarrow> Inl AttributeError
      | Object a \<Rightarrow>
          (case sockets s a of
             None \<Rightarrow> Inl SocketError
           | Some sk \<Rightarrow> if is_closed sk then Inl SocketError else Inr (bound_port sk)))"

text \<open>
  \<open>get_port\<close>: the result of \<open>wait_for_condition\<close> is not looked at.
\<close>

definition get_port :: "server \<Rightarrow> int \<Rightarrow> tick list \<Rightarrow> (error + nat) option" where
  "get_port s initial ts =
     (case wait_for_condition hasattr_sock 5000 initial s ts of
        (None, s') \<Rightarrow> None
      | (Some waited, s') \<Rightarrow> Some (getsockname_port s'))"

subsection \<open>Frames, for the statements below\<close>

text \<open>The four bytes of a length, least significant first: what \<open>struct_pack_I\<close> returns.\<close>

definition le32 :: "int \<Rightarrow> bytes" where
  "le32 n = [word_of_int n, word_of_int (n div 256), word_of_int (n div 65536),
             word_of_int (n div 16777216)]"

text \<open>A frame on the wire: the length of the payload in four bytes, then the payload.\<close>

definition frame :: "bytes \<Rightarrow> bytes" where
  "frame p = le32 (int (length p)) @ p"

text \<open>
  A handler for examples: a subclass whose \<open>_handle_msg\<close> keeps the message bytes it
  was called with and never raises.
\<close>

definition keep_msg :: "bytes list \<Rightarrow> bytes \<Rightarrow> error + bytes list" where
  "keep_msg seen msg_as_bytes = Inr (seen @ [msg_as_bytes])"

text \<open>A handler for examples that raises on every message.\<close>

definition failing_handler :: "unit \<Rightarrow> bytes \<Rightarrow> error + unit" where
  "failing_handler h msg_as_bytes = Inl HandlerError"

text \<open>
  Servers and passes for examples: a server whose socket is bound to port 5000 and listening
  (after \<open>serve_forever(host, 5000, block=False)\<close>); a pass in which a connection is
  accepted and its handler cannot be constructed or started; one in which the handler
  starts; one in which \<open>accept\<close> raises.
\<close>

definition running_server :: server where
  "running_server =
     \<lparr>block = Some False, shutdown_event = False, sock_attr = Object 0,
      sockets = (\<lambda>_. None)(0 := Some \<lparr>bound_port = 5000, is_closed = False, times_closed = 0\<rparr>),
      started = [], tracebacks = 0\<rparr>"

definition handler_fails :: "nat \<Rightarrow> pass" where
  "handler_fails connection =
     \<lparr>shutdown_called = False, select_result = Inr True, accept_result = Inr connection,
      start_raises = True\<rparr>"

definition handler_starts :: "nat \<Rightarrow> pass" where
  "handler_starts connection =
     \<lparr>shutdown_called = False, select_result = Inr True, accept_result = Inr connection,
      start_raises = False\<rparr>"

definition accept_fails :: pass where
  "accept_fails =
     \<lparr>shutdown_called = False, select_result = Inr True, accept_result = Inl SocketError,
      start_raises = False\<rparr>"

section \<open>Properties\<close>

subsection \<open>The length prefix\<close>

lemma struct_pack_I_le32: "0 \<le> n \<Longrightarrow> n < 4294967296 \<Longrightarrow> struct_pack_I n = Inr (le32 n)"
  by (simp add: struct_pack_I_def le32_def)

lemma uint_byte_of_int: "uint (word_of_int k :: byte) = k mod 256"
  by (simp add: uint_word_of_int)

lemma radix_256_sum:
  fixes a b c n r1 r2 r3 :: int
  assumes "n = 256 * a + r1" "a = 256 * b + r2" "b = 256 * c + r3"
  shows "r1 + 256 * r2 + 65536 * r3 + 16777216 * c = n"
  using assms by simp

lemma le_bytes_sum:
  fixes n :: int
  assumes "0 \<le> n" "n < 4294967296"
  shows "n mod 256 + 256 * (n div 256 mod 256) + 65536 * (n div 65536 mod 256)
          + 16777216 * (n div 16777216 mod 256) = n"
proof -
  have d2: "n div 65536 = n div 256 div 256"
    using zdiv_zmult2_eq [of 256 n 256] by simp
  have d3: "n div 16777216 = n div 256 div 256 div 256"
    using zdiv_zmult2_eq [of 256 n 65536] d2 by simp
  have top: "n div 16777216 < 256"
    using assms by (simp add: div_less_iff_less_mult)
  have nn: "0 \<le> n div 16777216" using assms by simp
  have m3: "n div 16777216 mod 256 = n div 16777216"
    using top nn by simp
  have s1: "n = 256 * (n div 256) + n mod 256" by simp
  have s2: "n div 256 = 256 * (n div 256 div 256) + n div 256 mod 256" by simp
  have s3: "n div 256 div 256 = 256 * (n div 256 div 256 div 256) + n div 256 div 256 mod 256" by simp
  show ?thesis unfolding m3 unfolding d2 d3 by (rule radix_256_sum [OF s1 s2 s3])
qed

lemma struct_unpack_I_le32:
  assumes "0 \<le> n" "n < 4294967296"
  shows "struct_unpack_I (le32 n) = Inr n"
  unfolding le32_def struct_unpack_I.simps uint_byte_of_int
  by (simp only: le_bytes_sum [OF assms])

lemma length_le32 [simp]: "length (le32 n) = 4"
  by (simp add: le32_def)

lemma struct_unpack_I_nonneg: "struct_unpack_I bs = Inr n \<Longrightarrow> 0 \<le> n"
  by (induction bs rule: struct_unpack_I.induct) auto

lemma struct_unpack_I_len4: "length bs = 4 \<Longrightarrow> \<exists>n. struct_unpack_I bs = Inr n"
  by (induction bs rule: struct_unpack_I.induct) auto

lemma pack_obj_small:
  assumes "packb obj = Inr msg" "int (length msg) < 2147483647"
  shows "pack_obj packb obj = Inr (le32 (int (length msg)) @ msg)"
  using assms by (simp add: pack_obj_def MAX_INT32_def struct_pack_I_le32)

lemma pack_obj_large:
  assumes "packb obj = Inr msg" "2147483647 \<le> int (length msg)"
  shows "pack_obj packb obj = Inl AssertionError"
  using assms by (simp add: pack_obj_def MAX_INT32_def)

subsection \<open>Encoding\<close>

text \<open>
  Claim C6. When the serializer returns the message \<open>msg\<close>, \<open>pack_obj\<close> fails with the
  \<open>AssertionError\<close> of its size check if and only if \<open>msg\<close> has \<open>2^31 - 1\<close> bytes or
  more, and then it returns no frame; otherwise it returns a four-byte prefix followed by
  \<open>msg\<close>, and the prefix is the length of \<open>msg\<close>, least significant byte first, which
  \<open>struct.unpack("<I", ...)\<close> reads back as that length.
\<close>

theorem pack_obj_fails_iff_too_large:
  assumes "packb obj = Inr msg"
  shows "(pack_obj packb obj = Inl AssertionError \<longleftrightarrow> 2147483647 \<le> int (length msg))
       \<and> (2147483647 \<le> int (length msg) \<longrightarrow> (\<forall>frame. pack_obj packb obj \<noteq> Inr frame))
       \<and> (int (length msg) < 2147483647 \<longrightarrow>
            (\<exists>prefix. pack_obj packb obj = Inr (prefix @ msg) \<and> length prefix = 4
                    \<and> prefix = le32 (int (length msg))
                    \<and> struct_unpack_I prefix = Inr (int (length msg))))"
proof (cases "int (length msg) < 2147483647")
  case True
  have "pack_obj packb obj = Inr (le32 (int (length msg)) @ msg)"
    using assms True by (rule pack_obj_small)
  moreover have "struct_unpack_I (le32 (int (length msg))) = Inr (int (length msg))"
    using True by (intro struct_unpack_I_le32) simp_all
  ultimately show ?thesis using True by simp
next
  case False
  then have big: "2147483647 \<le> int (length msg)" by linarith
  have "pack_obj packb obj = Inl AssertionError"
    using assms big by (rule pack_obj_large)
  then show ?thesis using big by simp
qed

theorem pack_obj_fails_iff_too_large_witness:
  "(pack_obj Inr [1, 2, 3] = Inr ([3, 0, 0, 0] @ [1, 2, 3]))
   \<and> struct_unpack_I [3, 0, 0, 0] = Inr 3
   \<and> pack_obj Inr (replicate 2147483647 0) = Inl AssertionError"
proof -
  have l: "le32 3 = [3, 0, 0, 0]" by (simp add: le32_def)
  have "pack_obj Inr [1, 2, 3] = Inr ([3, 0, 0, 0] @ [1, 2, 3])"
    using pack_obj_fails_iff_too_large [of Inr "[1, 2, 3]" "[1, 2, 3]"]
    by (simp add: l)
  moreover have "struct_unpack_I [3, 0, 0, 0] = Inr 3" by simp
  moreover have "pack_obj Inr (replicate 2147483647 0) = Inl AssertionError"
    using pack_obj_fails_iff_too_large
            [of Inr "replicate 2147483647 0" "replicate 2147483647 0"]
    by simp
  ultimately show ?thesis by blast
qed

subsection \<open>The receive loop\<close>

lemma read_number_of_bytes_ok:
  assumes "4 \<le> length data"
  shows "\<exists>n. 0 \<le> n \<and> struct_unpack_I (take 4 data) = Inr n
            \<and> read_number_of_bytes data = Inr (drop 4 data, n)"
proof -
  have "length (take 4 data) = 4" using assms by simp
  then obtain n where n: "struct_unpack_I (take 4 data) = Inr n"
    using struct_unpack_I_len4 by blast
  then have "0 \<le> n" by (rule struct_unpack_I_nonneg)
  then show ?thesis using n
    by (simp add: read_number_of_bytes_def slice_to_def slice_from_def)
qed

lemma read_number_of_bytes_le32:
  assumes "take 4 data = le32 n" "0 \<le> n" "n < 4294967296"
  shows "read_number_of_bytes data = Inr (drop 4 data, n)"
  using assms
  by (simp add: read_number_of_bytes_def slice_to_def slice_from_def struct_unpack_I_le32)

lemma recv_Nil: "pending conn = [] \<Longrightarrow> recv conn = (at_end conn, conn)"
  by (simp add: recv_def)

lemma recv_Cons: "pending conn = c # cs \<Longrightarrow> recv conn = (Received c, conn\<lparr>pending := cs\<rparr>)"
  by (simp add: recv_def)

lemma wait_payload:
  assumes "0 < n" "n \<le> int (length data + length (concat (pending conn)))"
  shows "\<exists>data' conn'. wait_for_message data n conn = Some (Complete data' n conn')
          \<and> data' @ concat (pending conn') = data @ concat (pending conn)
          \<and> n \<le> int (length data')
          \<and> at_end conn' = at_end conn \<and> closed conn' = closed conn"
  using assms
proof (induction cs \<equiv> "pending conn" arbitrary: data conn)
  case Nil
  then have "n \<le> int (length data)" by simp
  with \<open>0 < n\<close> have "\<not> (data = [] \<or> n = 0 \<or> int (length data) < n)" by auto
  then have "wait_for_message data n conn = Some (Complete data n conn)"
    by (subst wait_for_message.simps) simp
  then show ?case using \<open>n \<le> int (length data)\<close> by simp
next
  case (Cons c cs)
  show ?case
  proof (cases "data = [] \<or> n = 0 \<or> int (length data) < n")
    case False
    then have "wait_for_message data n conn = Some (Complete data n conn)"
      by (subst wait_for_message.simps) simp
    then show ?thesis using False by simp
  next
    case True
    let ?conn = "conn\<lparr>pending := cs\<rparr>"
    have r: "recv conn = (Received c, ?conn)"
      using Cons.hyps(2) by (simp add: recv_Cons)
    have step: "wait_for_message data n conn = wait_for_message (data @ c) n ?conn"
      using True \<open>0 < n\<close> by (subst wait_for_message.simps) (simp add: r)
    have "cs = pending ?conn" by simp
    moreover have "n \<le> int (length (data @ c) + length (concat (pending ?conn)))"
      using Cons.prems(2) Cons.hyps(2) [symmetric] by simp
    ultimately obtain data' conn' where
      "wait_for_message (data @ c) n ?conn = Some (Complete data' n conn')"
      "data' @ concat (pending conn') = (data @ c) @ concat (pending ?conn)"
      "n \<le> int (length data')" "at_end conn' = at_end ?conn" "closed conn' = closed ?conn"
      using Cons.hyps(1) [of ?conn "data @ c"] \<open>0 < n\<close> by blast
    then show ?thesis using step Cons.hyps(2) [symmetric] by simp
  qed
qed


lemma wait_header:
  assumes "length data < 4" "data @ concat (pending conn) = le32 n @ rest"
    and "0 < n" "n < 4294967296" "n \<le> int (length rest)"
  shows "\<exists>data' conn'. wait_for_message data 0 conn = Some (Complete data' n conn')
          \<and> data' @ concat (pending conn') = rest
          \<and> n \<le> int (length data')
          \<and> at_end conn' = at_end conn \<and> closed conn' = closed conn"
  using assms(1,2)
proof (induction cs \<equiv> "pending conn" arbitrary: data conn)
  case Nil
  then have "data = le32 n @ rest" by simp
  then have "4 \<le> length data" by simp
  with Nil.prems(1) show ?case by simp
next
  case (Cons c cs)
  let ?conn = "conn\<lparr>pending := cs\<rparr>"
  let ?data = "data @ c"
  have r: "recv conn = (Received c, ?conn)"
    using Cons.hyps(2) by (simp add: recv_Cons)
  have wire: "?data @ concat cs = le32 n @ rest"
    using Cons.prems(2) Cons.hyps(2) [symmetric] by simp
  show ?case
  proof (cases "4 \<le> length ?data")
    case False
    have step: "wait_for_message data 0 conn = wait_for_message ?data 0 ?conn"
      using False by (subst wait_for_message.simps) (simp add: r)
    have "cs = pending ?conn" by simp
    moreover have "length ?data < 4" using False by simp
    moreover have "?data @ concat (pending ?conn) = le32 n @ rest" using wire by simp
    ultimately obtain data' conn' where
      "wait_for_message ?data 0 ?conn = Some (Complete data' n conn')"
      "data' @ concat (pending conn') = rest"
      "n \<le> int (length data')" "at_end conn' = at_end ?conn" "closed conn' = closed ?conn"
      using Cons.hyps(1) [of ?conn ?data] by blast
    then show ?thesis using step by simp
  next
    case True
    have "take 4 ?data = take 4 (?data @ concat cs)" using True by simp
    also have "\<dots> = le32 n" unfolding wire by simp
    finally have "read_number_of_bytes ?data = Inr (drop 4 ?data, n)"
      using assms(3,4) by (intro read_number_of_bytes_le32) simp_all
    then have step: "wait_for_message data 0 conn = wait_for_message (drop 4 ?data) n ?conn"
      using True by (subst wait_for_message.simps) (simp add: r)
    have "drop 4 ?data @ concat cs = drop 4 (?data @ concat cs)" using True by simp
    also have "\<dots> = rest" unfolding wire by simp
    finally have tail: "drop 4 ?data @ concat (pending ?conn) = rest" by simp
    then have "length rest = length (drop 4 ?data) + length (concat (pending ?conn))"
      by (metis length_append)
    then have "n \<le> int (length (drop 4 ?data) + length (concat (pending ?conn)))"
      using assms(5) by simp
    then obtain data' conn' where
      "wait_for_message (drop 4 ?data) n ?conn = Some (Complete data' n conn')"
      "data' @ concat (pending conn') = drop 4 ?data @ concat (pending ?conn)"
      "n \<le> int (length data')" "at_end conn' = at_end ?conn" "closed conn' = closed ?conn"
      using wait_payload [OF assms(3), of "drop 4 ?data" ?conn] by blast
    then show ?thesis using step tail by simp
  qed
qed

lemma wait_end:
  assumes "concat (pending conn) = []" "at_end conn = RecvRaises"
  shows "wait_for_message [] 0 conn = Some (Disconnected (conn\<lparr>pending := []\<rparr>))"
  using assms
proof (induction cs \<equiv> "pending conn" arbitrary: conn)
  case Nil
  then have "recv conn = (RecvRaises, conn)" by (simp add: recv_Nil)
  moreover have "conn\<lparr>pending := []\<rparr> = conn" using Nil.hyps by simp
  ultimately show ?case by (subst wait_for_message.simps) simp
next
  case (Cons c cs)
  let ?conn = "conn\<lparr>pending := cs\<rparr>"
  have c: "c = []" and cs: "concat cs = []"
    using Cons.prems(1) Cons.hyps(2) [symmetric] by simp_all
  have r: "recv conn = (Received [], ?conn)"
    using Cons.hyps(2) c by (simp add: recv_Cons)
  have "wait_for_message [] 0 conn = wait_for_message [] 0 ?conn"
    by (subst wait_for_message.simps) (simp add: r)
  also have "\<dots> = Some (Disconnected (?conn\<lparr>pending := []\<rparr>))"
    using Cons.hyps(1) [of ?conn] cs Cons.prems(2) by simp
  finally show ?case by simp
qed

lemma run_loop_frame:
  assumes wire: "data @ concat (pending conn) = frame p @ rest"
    and p: "p \<noteq> []" "int (length p) < 4294967296"
  shows "\<exists>data' conn'.
           run_loop handler h log data 0 conn =
             (case handler h p of
                Inl e \<Rightarrow> Some \<lparr>outcome = Raised e, handled = log @ [p], handler_state = h,
                               conn_after = conn', close_calls = 0\<rparr>
              | Inr h' \<Rightarrow> run_loop handler h' (log @ [p]) data' 0 conn')
         \<and> data' @ concat (pending conn') = rest
         \<and> at_end conn' = at_end conn \<and> closed conn' = closed conn"
proof -
  let ?n = "int (length p)"
  have n: "0 < ?n" using p(1) by simp
  have wire': "data @ concat (pending conn) = le32 ?n @ (p @ rest)"
    using wire by (simp add: frame_def)
  have "\<exists>data2 conn'.
          (case (if (0::int) = 0 \<and> 4 \<le> length data then read_number_of_bytes data
                 else Inr (data, 0)) of
             Inl e \<Rightarrow> None
           | Inr (data1, n1) \<Rightarrow> wait_for_message data1 n1 conn) = Some (Complete data2 ?n conn')
        \<and> (if (0::int) = 0 \<and> 4 \<le> length data then read_number_of_bytes data
                 else Inr (data, 0)) \<noteq> Inl AssertionError
        \<and> data2 @ concat (pending conn') = p @ rest \<and> ?n \<le> int (length data2)
        \<and> at_end conn' = at_end conn \<and> closed conn' = closed conn"
  proof (cases "4 \<le> length data")
    case True
    have "take 4 data = take 4 (data @ concat (pending conn))" using True by simp
    also have "\<dots> = le32 ?n" unfolding wire' by simp
    finally have rd: "read_number_of_bytes data = Inr (drop 4 data, ?n)"
      using p(2) by (intro read_number_of_bytes_le32) simp_all
    have "drop 4 data @ concat (pending conn) = drop 4 (data @ concat (pending conn))"
      using True by simp
    also have "\<dots> = p @ rest" unfolding wire' by simp
    finally have tail: "drop 4 data @ concat (pending conn) = p @ rest" .
    then have "length (p @ rest) = length (drop 4 data) + length (concat (pending conn))"
      by (metis length_append)
    then have "?n \<le> int (length (drop 4 data) + length (concat (pending conn)))" by simp
    then obtain data2 conn' where
      "wait_for_message (drop 4 data) ?n conn = Some (Complete data2 ?n conn')"
      "data2 @ concat (pending conn') = drop 4 data @ concat (pending conn)"
      "?n \<le> int (length data2)" "at_end conn' = at_end conn" "closed conn' = closed conn"
      using wait_payload [OF n, of "drop 4 data" conn] by blast
    then show ?thesis using True rd tail by simp
  next
    case False
    then have "length data < 4" by simp
    moreover have "?n \<le> int (length (p @ rest))" by simp
    ultimately obtain data2 conn' where
      "wait_for_message data 0 conn = Some (Complete data2 ?n conn')"
      "data2 @ concat (pending conn') = p @ rest"
      "?n \<le> int (length data2)" "at_end conn' = at_end conn" "closed conn' = closed conn"
      using wait_header [OF _ wire' n p(2), of ] by blast
    then show ?thesis using False by simp
  qed
  then obtain data2 conn' where
    w: "(case (if (0::int) = 0 \<and> 4 \<le> length data then read_number_of_bytes data
                 else Inr (data, 0)) of
             Inl e \<Rightarrow> None
           | Inr (data1, n1) \<Rightarrow> wait_for_message data1 n1 conn) = Some (Complete data2 ?n conn')"
    and d2: "data2 @ concat (pending conn') = p @ rest" and len: "?n \<le> int (length data2)"
    and keep: "at_end conn' = at_end conn" "closed conn' = closed conn"
    by blast
  have len': "length p \<le> length data2" using len by simp
  have "take (length p) data2 = take (length p) (data2 @ concat (pending conn'))"
    using len' by simp
  also have "\<dots> = p" unfolding d2 by simp
  finally have msg: "slice_to ?n data2 = p" by (simp add: slice_to_def)
  have "drop (length p) data2 @ concat (pending conn')
          = drop (length p) (data2 @ concat (pending conn'))"
    using len' by simp
  also have "\<dots> = rest" unfolding d2 by simp
  finally have rest: "slice_from ?n data2 @ concat (pending conn') = rest"
    by (simp add: slice_from_def)
  have "run_loop handler h log data 0 conn =
          (case handler h p of
             Inl e \<Rightarrow> Some \<lparr>outcome = Raised e, handled = log @ [p], handler_state = h,
                            conn_after = conn', close_calls = 0\<rparr>
           | Inr h' \<Rightarrow> run_loop handler h' (log @ [p]) (slice_from ?n data2) 0 conn')"
    using w msg by (subst run_loop.simps) (auto split: sum.splits prod.splits)
  then show ?thesis using rest keep by blast
qed


lemma run_loop_end:
  assumes "concat (pending conn) = []" "at_end conn = RecvRaises"
  shows "run_loop handler h log [] 0 conn =
           Some \<lparr>outcome = Returned, handled = log, handler_state = h,
                 conn_after = conn\<lparr>pending := []\<rparr>, close_calls = 0\<rparr>"
  using wait_end [OF assms] by (subst run_loop.simps) simp


lemma pack_obj_frame:
  assumes "packb obj = Inr p" "int (length p) < 2147483647"
  shows "pack_obj packb obj = Inr (frame p)"
  using pack_obj_small [of packb obj p] assms by (simp add: frame_def)



subsection \<open>How the receive loop ends\<close>

lemma recv_at_end: "recv conn = (x, conn') \<Longrightarrow> at_end conn' = at_end conn"
  by (auto simp: recv_def split: list.splits)

lemma recv_RecvRaises: "recv conn = (RecvRaises, conn') \<Longrightarrow> at_end conn = RecvRaises"
  by (auto simp: recv_def split: list.splits)

lemma wait_for_message_exit:
  assumes "wait_for_message data n conn = Some x"
  shows "(\<forall>e c. x \<noteq> Failed e c)
       \<and> (\<forall>c. x = Disconnected c \<longrightarrow> at_end conn = RecvRaises)
       \<and> (\<forall>d m c. x = Complete d m c \<longrightarrow> at_end c = at_end conn)"
proof (rule wait_for_message.raw_induct
    [where P = "\<lambda>data n conn x. (\<forall>e c. x \<noteq> Failed e c)
       \<and> (\<forall>c. x = Disconnected c \<longrightarrow> at_end conn = RecvRaises)
       \<and> (\<forall>d m c. x = Complete d m c \<longrightarrow> at_end c = at_end conn)", OF _ assms],
    goal_cases)
  case (1 wait data n conn x)
  show ?case
  proof (cases "data = [] \<or> n = 0 \<or> int (length data) < n")
    case False
    with 1(2) show ?thesis by auto
  next
    case True
    obtain res conn' where r: "recv conn = (res, conn')" by (cases "recv conn")
    have keep: "at_end conn' = at_end conn" using r by (rule recv_at_end)
    show ?thesis
    proof (cases res)
      case RecvRaises
      then have "at_end conn = RecvRaises" using r recv_RecvRaises by blast
      moreover have "x = Disconnected conn'" using 1(2) True r RecvRaises by simp
      ultimately show ?thesis by simp
    next
      case (Received rec)
      show ?thesis
      proof (cases "n = 0 \<and> 4 \<le> length (data @ rec)")
        case False
        then have "wait (data @ rec) n conn' = Some x"
          using 1(2) True r Received by (auto simp: Let_def)
        from 1(1) [OF this] show ?thesis using keep by simp
      next
        case hdr: True
        then obtain m where "read_number_of_bytes (data @ rec) = Inr (drop 4 (data @ rec), m)"
          using read_number_of_bytes_ok [of "data @ rec"] by blast
        then have "wait (drop 4 (data @ rec)) m conn' = Some x"
          using 1(2) True r Received hdr by (auto simp: Let_def)
        from 1(1) [OF this] show ?thesis using keep by simp
      qed
    qed
  qed
qed


lemma header_always_read:
  "\<exists>data1 n1. (if n = 0 \<and> 4 \<le> length data then read_number_of_bytes data
                 else Inr (data, n)) = Inr (data1, n1)"
  using read_number_of_bytes_ok [of data] by auto

lemma run_loop_result:
  assumes "run_loop handler h log data n conn = Some r"
  shows "close_calls r = 0
       \<and> (\<forall>e. outcome r = Raised e \<longrightarrow> (\<exists>h' m. handler h' m = Inl e))
       \<and> (outcome r = Returned \<longrightarrow> at_end conn = RecvRaises)"
proof (rule run_loop.raw_induct
    [where P = "\<lambda>handler h log data n conn r. close_calls r = 0
       \<and> (\<forall>e. outcome r = Raised e \<longrightarrow> (\<exists>h' m. handler h' m = Inl e))
       \<and> (outcome r = Returned \<longrightarrow> at_end conn = RecvRaises)", OF _ assms],
    goal_cases)
  case (1 loop handler h log data n conn r)
  obtain data1 n1 where hdr:
    "(if n = 0 \<and> 4 \<le> length data then read_number_of_bytes data else Inr (data, n))
       = Inr (data1, n1)"
    using header_always_read by blast
  show ?case
  proof (cases "wait_for_message data1 n1 conn")
    case None
    then show ?thesis using 1(2) hdr by simp
  next
    case (Some x)
    note ex = wait_for_message_exit [OF Some]
    show ?thesis
    proof (cases x)
      case (Disconnected c)
      then show ?thesis using 1(2) hdr Some ex by auto
    next
      case (Failed e c)
      then show ?thesis using ex by simp
    next
      case (Complete d m c)
      then have keep: "at_end c = at_end conn" using ex by simp
      show ?thesis
      proof (cases "handler h (slice_to m d)")
        case (Inl e)
        then have "r = \<lparr>outcome = Raised e, handled = log @ [slice_to m d], handler_state = h,
                         conn_after = c, close_calls = 0\<rparr>"
          using 1(2) hdr Some Complete by (simp add: Let_def)
        then show ?thesis using Inl by auto
      next
        case (Inr h')
        then have "loop handler h' (log @ [slice_to m d]) (slice_from m d) 0 c = Some r"
          using 1(2) hdr Some Complete by (simp add: Let_def)
        from 1(1) [OF this] show ?thesis using keep by simp
      qed
    qed
  qed
qed

lemma run_result_facts:
  assumes "run handler h conn = Some r"
  shows "close_calls r = 1 \<and> closed (conn_after r)
       \<and> (\<forall>e. outcome r = Raised e \<longrightarrow> (\<exists>h' m. handler h' m = Inl e))
       \<and> (outcome r = Returned \<longrightarrow> at_end conn = RecvRaises)"
proof -
  obtain r0 where r0: "run_loop handler h [] [] 0 conn = Some r0"
    and r: "r = r0\<lparr>conn_after := close (conn_after r0), close_calls := close_calls r0 + 1\<rparr>"
    using assms by (auto simp: run_def split: option.splits)
  show ?thesis using run_loop_result [OF r0] by (simp add: r close_def)
qed

lemma run_never_ends_at_eof:
  assumes "at_end conn \<noteq> RecvRaises" "\<And>h m. \<exists>h'. handler h m = Inr h'"
  shows "run handler h conn = None"
proof (cases "run handler h conn")
  case None
  then show ?thesis .
next
  case (Some r)
  note res = run_result_facts [OF Some]
  show ?thesis
  proof (cases "outcome r")
    case Returned
    then show ?thesis using res assms(1) by simp
  next
    case (Raised e)
    then obtain h' m where "handler h' m = Inl e" using res by blast
    then show ?thesis using assms(2) [of h' m] by simp
  qed
qed

text \<open>
  Claim C4 at its failing input. After the peer has closed the connection in an orderly way
  every \<open>recv\<close> returns the empty string and raises nothing. \<open>run\<close> then never
  returns, whether it is waiting for a length (nothing was received) or for the rest of a
  payload (five bytes announced, one received): it calls \<open>recv\<close> again and again.
\<close>

theorem run_spins_after_orderly_close:
  "run keep_msg [] \<lparr>pending = [], at_end = Received [], closed = False\<rparr> = None
   \<and> run keep_msg [] \<lparr>pending = [[5, 0, 0, 0, 1]], at_end = Received [], closed = False\<rparr> = None"
proof -
  have "\<And>h m. \<exists>h'. keep_msg h m = Inr h'" by (simp add: keep_msg_def)
  then show ?thesis by (simp add: run_never_ends_at_eof)
qed

text \<open>
  Claim C3 at its failing input. The prefixes \<open>FF FF FF 7F\<close> (\<open>2^31 - 1\<close>) and
  \<open>FF FF FF FF\<close> (\<open>2^32 - 1\<close>) are read as lengths and raise nothing; \<open>run\<close> on the
  second one waits for that many bytes and returns without any exception when \<open>recv\<close>
  raises.
\<close>

theorem prefix_is_never_rejected:
  "read_number_of_bytes [255, 255, 255, 127] = Inr ([], 2147483647)
   \<and> read_number_of_bytes [255, 255, 255, 255] = Inr ([], 4294967295)
   \<and> run keep_msg [] \<lparr>pending = [[255, 255, 255, 255], [1, 2, 3]], at_end = RecvRaises,
                         closed = False\<rparr>
       = Some \<lparr>outcome = Returned, handled = [], handler_state = [],
               conn_after = \<lparr>pending = [], at_end = RecvRaises, closed = True\<rparr>,
               close_calls = 1\<rparr>"
  by code_simp

text \<open>
  When \<open>recv\<close> raises after the chunks are used up, both loops end, whatever the bytes
  are: each pass of the outer loop that does not end it takes at least one byte away.
\<close>

lemma wait_terminates:
  assumes "at_end conn = RecvRaises" "0 \<le> n"
  shows "\<exists>x. wait_for_message data n conn = Some x
           \<and> (\<forall>d m c. x = Complete d m c \<longrightarrow>
                 0 < m \<and> m \<le> int (length d)
               \<and> length d + length (concat (pending c))
                    \<le> length data + length (concat (pending conn)))"
  using assms
proof (induction cs \<equiv> "pending conn" arbitrary: data n conn)
  case Nil
  show ?case
  proof (cases "data = [] \<or> n = 0 \<or> int (length data) < n")
    case False
    then have "wait_for_message data n conn = Some (Complete data n conn)"
      by (subst wait_for_message.simps) simp
    then show ?thesis using False Nil.prems(2) by auto
  next
    case True
    have "recv conn = (RecvRaises, conn)"
      using Nil.hyps Nil.prems(1) by (simp add: recv_Nil)
    then have "wait_for_message data n conn = Some (Disconnected conn)"
      using True by (subst wait_for_message.simps) simp
    then show ?thesis by simp
  qed
next
  case (Cons c cs)
  let ?conn = "conn\<lparr>pending := cs\<rparr>"
  have r: "recv conn = (Received c, ?conn)"
    using Cons.hyps(2) by (simp add: recv_Cons)
  have total: "length (concat (pending conn)) = length c + length (concat cs)"
    using Cons.hyps(2) [symmetric] by simp
  have end': "at_end ?conn = RecvRaises" using Cons.prems(1) by simp
  show ?case
  proof (cases "data = [] \<or> n = 0 \<or> int (length data) < n")
    case False
    then have "wait_for_message data n conn = Some (Complete data n conn)"
      by (subst wait_for_message.simps) simp
    then show ?thesis using False Cons.prems(2) by auto
  next
    case True
    show ?thesis
    proof (cases "n = 0 \<and> 4 \<le> length (data @ c)")
      case False
      have step: "wait_for_message data n conn = wait_for_message (data @ c) n ?conn"
        using True False by (subst wait_for_message.simps) (auto simp: r)
      obtain x where
        "wait_for_message (data @ c) n ?conn = Some x"
        "\<forall>d m c'. x = Complete d m c' \<longrightarrow> 0 < m \<and> m \<le> int (length d)
            \<and> length d + length (concat (pending c'))
                 \<le> length (data @ c) + length (concat (pending ?conn))"
        using Cons.hyps(1) [of ?conn n "data @ c"] end' Cons.prems(2) by auto
      then show ?thesis using step total by auto
    next
      case hdr: True
      obtain m where m: "0 \<le> m"
        "read_number_of_bytes (data @ c) = Inr (drop 4 (data @ c), m)"
        using read_number_of_bytes_ok [of "data @ c"] hdr by blast
      have step: "wait_for_message data n conn = wait_for_message (drop 4 (data @ c)) m ?conn"
        using True hdr m(2) by (subst wait_for_message.simps) (auto simp: r)
      obtain x where
        "wait_for_message (drop 4 (data @ c)) m ?conn = Some x"
        "\<forall>d k c'. x = Complete d k c' \<longrightarrow> 0 < k \<and> k \<le> int (length d)
            \<and> length d + length (concat (pending c'))
                 \<le> length (drop 4 (data @ c)) + length (concat (pending ?conn))"
        using Cons.hyps(1) [of ?conn m "drop 4 (data @ c)"] end' m(1) by auto
      then show ?thesis using step total by auto
    qed
  qed
qed

lemma run_loop_terminates:
  assumes "at_end conn = RecvRaises" "0 \<le> n"
  shows "\<exists>r. run_loop handler h log data n conn = Some r"
  using assms
proof (induction k \<equiv> "length data + length (concat (pending conn))"
        arbitrary: h log data n conn rule: less_induct)
  case less
  obtain data1 n1 where hdr:
    "(if n = 0 \<and> 4 \<le> length data then read_number_of_bytes data else Inr (data, n))
       = Inr (data1, n1)"
    and n1: "0 \<le> n1" and d1: "length data1 \<le> length data"
    using read_number_of_bytes_ok [of data] less.prems(2) by (cases "n = 0 \<and> 4 \<le> length data") auto
  obtain x where x: "wait_for_message data1 n1 conn = Some x"
    and cmp: "\<forall>d m c. x = Complete d m c \<longrightarrow> 0 < m \<and> m \<le> int (length d)
               \<and> length d + length (concat (pending c))
                    \<le> length data1 + length (concat (pending conn))"
    using wait_terminates [OF less.prems(1) n1, of data1] by blast
  show ?case
  proof (cases x)
    case (Disconnected c)
    then show ?thesis using hdr x by (subst run_loop.simps) simp
  next
    case (Failed e c)
    then show ?thesis using hdr x by (subst run_loop.simps) simp
  next
    case (Complete d m c)
    then have m: "0 < m" "m \<le> int (length d)"
      and le: "length d + length (concat (pending c)) \<le> length data1 + length (concat (pending conn))"
      using cmp by simp_all
    have keep: "at_end c = RecvRaises"
      using wait_for_message_exit [OF x] Complete less.prems(1) by simp
    show ?thesis
    proof (cases "handler h (slice_to m d)")
      case (Inl e)
      then show ?thesis using hdr x Complete by (subst run_loop.simps) (simp add: Let_def)
    next
      case (Inr h')
      have step: "run_loop handler h log data n conn
                    = run_loop handler h' (log @ [slice_to m d]) (slice_from m d) 0 c"
        using hdr x Complete Inr by (subst run_loop.simps) (simp add: Let_def)
      have "length (slice_from m d) < length d" using m by (simp add: slice_from_def)
      then have "length (slice_from m d) + length (concat (pending c))
                   < length data + length (concat (pending conn))"
        using le d1 by linarith
      from less.hyps [OF this keep, of 0 h' "log @ [slice_to m d]"] show ?thesis
        using step by simp
    qed
  qed
qed

lemma run_terminates:
  assumes "at_end conn = RecvRaises"
  shows "\<exists>r. run handler h conn = Some r"
  using run_loop_terminates [OF assms, of 0 handler h "[]" "[]"] by (auto simp: run_def)


text \<open>
  Whenever \<open>run\<close> ends, \<open>connection.close()\<close> has been called exactly once, and an
  exception leaves \<open>run\<close> only if the handler raised it.
\<close>

lemma run_closes_when_it_ends:
  "(\<forall>r. run handler h conn = Some r \<longrightarrow>
        close_calls r = 1 \<and> closed (conn_after r) \<and> close (conn_after r) = conn_after r)
   \<and> (at_end conn = RecvRaises \<longrightarrow> (\<exists>r. run handler h conn = Some r))
   \<and> (\<forall>r e. run handler h conn = Some r \<and> outcome r = Raised e \<longrightarrow>
          (\<exists>h' m. handler h' m = Inl e))"
proof (intro conjI allI impI)
  fix r assume r: "run handler h conn = Some r"
  show "close_calls r = 1" using run_result_facts [OF r] by simp
  show c: "closed (conn_after r)" using run_result_facts [OF r] by simp
  show "close (conn_after r) = conn_after r" using c by (simp add: close_def)
next
  assume "at_end conn = RecvRaises"
  then show "\<exists>r. run handler h conn = Some r" by (rule run_terminates)
next
  fix r e assume "run handler h conn = Some r \<and> outcome r = Raised e"
  then show "\<exists>h' m. handler h' m = Inl e" using run_result_facts [of handler h conn r] by blast
qed

lemma handler_failure_closes_connection:
  "run failing_handler () \<lparr>pending = [[1, 0, 0], [0, 65, 1, 0, 0, 0, 66]], at_end = RecvRaises,
                             closed = False\<rparr>
     = Some \<lparr>outcome = Raised HandlerError, handled = [[65]], handler_state = (),
             conn_after = \<lparr>pending = [], at_end = RecvRaises, closed = True\<rparr>,
             close_calls = 1\<rparr>
   \<and> close \<lparr>pending = [], at_end = RecvRaises, closed = True\<rparr>
       = \<lparr>pending = [], at_end = RecvRaises, closed = True\<rparr>
   \<and> failing_handler () [65] = Inl HandlerError"
proof -
  let ?conn = "\<lparr>pending = [[1, 0, 0], [0, 65, 1, 0, 0, 0, 66]], at_end = RecvRaises,
                 closed = False\<rparr>"
  have ev: "run failing_handler () ?conn
     = Some \<lparr>outcome = Raised HandlerError, handled = [[65]], handler_state = (),
             conn_after = \<lparr>pending = [], at_end = RecvRaises, closed = True\<rparr>,
             close_calls = 1\<rparr>"
    by code_simp
  show ?thesis
    using run_closes_when_it_ends [of failing_handler "()" ?conn] ev
    by (simp add: failing_handler_def)
qed

text \<open>
  Claim C10. What \<open>struct.unpack("<I", ...)\<close> returns is never negative, so the
  \<open>assert number_of_bytes >= 0\<close> never fails: reading the length from four or more
  bytes always succeeds, with the first four bytes as an unsigned number and the rest as
  the new \<open>data\<close>, and \<open>run\<close> ends with an \<open>AssertionError\<close> only if the handler
  raised one.
\<close>

theorem length_assertion_never_fails:
  "(\<forall>n. struct_unpack_I prefix = Inr n \<longrightarrow> 0 \<le> n)
   \<and> (4 \<le> length data \<longrightarrow>
        (\<exists>n\<ge>0. struct_unpack_I (take 4 data) = Inr n
              \<and> read_number_of_bytes data = Inr (drop 4 data, n)))
   \<and> (\<forall>r. run handler h conn = Some r \<longrightarrow>
        outcome r \<noteq> Raised AssertionError \<or> (\<exists>h' m. handler h' m = Inl AssertionError))"
proof (intro conjI allI impI)
  fix n assume "struct_unpack_I prefix = Inr n"
  then show "0 \<le> n" by (rule struct_unpack_I_nonneg)
next
  assume "4 \<le> length data"
  then show "\<exists>n\<ge>0. struct_unpack_I (take 4 data) = Inr n
                  \<and> read_number_of_bytes data = Inr (drop 4 data, n)"
    by (rule read_number_of_bytes_ok)
next
  fix r assume "run handler h conn = Some r"
  from run_result_facts [OF this]
  show "outcome r \<noteq> Raised AssertionError \<or> (\<exists>h' m. handler h' m = Inl AssertionError)"
    by blast
qed

theorem length_assertion_never_fails_witness:
  "struct_unpack_I [255, 255, 255, 255] = Inr 4294967295
   \<and> (\<exists>n\<ge>0. struct_unpack_I (take 4 [255, 255, 255, 255, 9]) = Inr n
            \<and> read_number_of_bytes [255, 255, 255, 255, 9] = Inr (drop 4 [255, 255, 255, 255, 9], n))
   \<and> run keep_msg [] \<lparr>pending = [[255, 255, 255, 255, 9]], at_end = RecvRaises, closed = False\<rparr>
       = Some \<lparr>outcome = Returned, handled = [], handler_state = [],
               conn_after = \<lparr>pending = [], at_end = RecvRaises, closed = True\<rparr>,
               close_calls = 1\<rparr>"
proof -
  have ev: "run keep_msg [] \<lparr>pending = [[255, 255, 255, 255, 9]], at_end = RecvRaises,
                             closed = False\<rparr>
       = Some \<lparr>outcome = Returned, handled = [], handler_state = [],
               conn_after = \<lparr>pending = [], at_end = RecvRaises, closed = True\<rparr>,
               close_calls = 1\<rparr>"
    by code_simp
  have up: "struct_unpack_I [255, 255, 255, 255] = Inr 4294967295" by simp
  show ?thesis
    using length_assertion_never_fails
            [of "[255, 255, 255, 255]" "[255, 255, 255, 255, 9]" keep_msg "[]"
                "\<lparr>pending = [[255, 255, 255, 255, 9]], at_end = RecvRaises, closed = False\<rparr>"]
          ev up
    by simp
qed

subsection \<open>The receive loop after a number of calls of \<open>recv\<close>\<close>

lemma wait_within_done:
  assumes "\<not> (data = [] \<or> n = 0 \<or> int (length data) < n)"
  shows "wait_for_message_within b data n conn = Finished (Complete data n conn) b"
  using assms by (cases b) simp_all

lemma wait_within_recv:
  assumes "data = [] \<or> n = 0 \<or> int (length data) < n" "recv conn = (Received rec, conn')"
  shows "wait_for_message_within (Suc b) data n conn =
           (if n = 0 \<and> 4 \<le> length (data @ rec)
            then (case read_number_of_bytes (data @ rec) of
                    Inl e \<Rightarrow> Finished (Failed e conn') b
                  | Inr (data'', n') \<Rightarrow> wait_for_message_within b data'' n' conn')
            else wait_for_message_within b (data @ rec) n conn')"
  using assms by (simp add: Let_def)

lemma wait_payload_within:
  assumes "0 < n" "n \<le> int (length data + length (concat (pending conn)))"
  shows "\<exists>data' conn'.
           wait_for_message_within (length (pending conn) + x) data n conn
             = Finished (Complete data' n conn') (length (pending conn') + x)
         \<and> data' @ concat (pending conn') = data @ concat (pending conn)
         \<and> n \<le> int (length data')
         \<and> at_end conn' = at_end conn \<and> closed conn' = closed conn"
  using assms
proof (induction cs \<equiv> "pending conn" arbitrary: data conn)
  case Nil
  then have "n \<le> int (length data)" by simp
  with \<open>0 < n\<close> have "\<not> (data = [] \<or> n = 0 \<or> int (length data) < n)" by auto
  then have "wait_for_message_within (length (pending conn) + x) data n conn
               = Finished (Complete data n conn) (length (pending conn) + x)"
    by (rule wait_within_done)
  then show ?case using \<open>n \<le> int (length data)\<close> by blast
next
  case (Cons c cs)
  show ?case
  proof (cases "data = [] \<or> n = 0 \<or> int (length data) < n")
    case False
    then have "wait_for_message_within (length (pending conn) + x) data n conn
                 = Finished (Complete data n conn) (length (pending conn) + x)"
      by (rule wait_within_done)
    then show ?thesis using False by force
  next
    case True
    let ?conn = "conn\<lparr>pending := cs\<rparr>"
    have r: "recv conn = (Received c, ?conn)"
      using Cons.hyps(2) by (simp add: recv_Cons)
    have b: "length (pending conn) + x = Suc (length (pending ?conn) + x)"
      using Cons.hyps(2) [symmetric] by simp
    have step: "wait_for_message_within (length (pending conn) + x) data n conn
                  = wait_for_message_within (length (pending ?conn) + x) (data @ c) n ?conn"
      unfolding b using wait_within_recv [OF True r] \<open>0 < n\<close> by simp
    have "cs = pending ?conn" by simp
    moreover have "n \<le> int (length (data @ c) + length (concat (pending ?conn)))"
      using Cons.prems(2) Cons.hyps(2) [symmetric] by simp
    ultimately obtain data' conn' where
      "wait_for_message_within (length (pending ?conn) + x) (data @ c) n ?conn
         = Finished (Complete data' n conn') (length (pending conn') + x)"
      "data' @ concat (pending conn') = (data @ c) @ concat (pending ?conn)"
      "n \<le> int (length data')" "at_end conn' = at_end ?conn" "closed conn' = closed ?conn"
      using Cons.hyps(1) [of ?conn "data @ c"] \<open>0 < n\<close> by blast
    then show ?thesis using step Cons.hyps(2) [symmetric] by simp
  qed
qed

lemma wait_header_within:
  assumes "length data < 4" "data @ concat (pending conn) = le32 n @ rest"
    and "0 < n" "n < 4294967296" "n \<le> int (length rest)"
  shows "\<exists>data' conn'.
           wait_for_message_within (length (pending conn) + x) data 0 conn
             = Finished (Complete data' n conn') (length (pending conn') + x)
         \<and> data' @ concat (pending conn') = rest
         \<and> n \<le> int (length data')
         \<and> at_end conn' = at_end conn \<and> closed conn' = closed conn"
  using assms(1,2)
proof (induction cs \<equiv> "pending conn" arbitrary: data conn)
  case Nil
  then have "data = le32 n @ rest" by simp
  then have "4 \<le> length data" by simp
  with Nil.prems(1) show ?case by simp
next
  case (Cons c cs)
  let ?conn = "conn\<lparr>pending := cs\<rparr>"
  let ?data = "data @ c"
  have r: "recv conn = (Received c, ?conn)"
    using Cons.hyps(2) by (simp add: recv_Cons)
  have b: "length (pending conn) + x = Suc (length (pending ?conn) + x)"
    using Cons.hyps(2) [symmetric] by simp
  have wire: "?data @ concat cs = le32 n @ rest"
    using Cons.prems(2) Cons.hyps(2) [symmetric] by simp
  have cond: "data = [] \<or> (0::int) = 0 \<or> int (length data) < 0" by simp
  show ?case
  proof (cases "4 \<le> length ?data")
    case False
    have step: "wait_for_message_within (length (pending conn) + x) data 0 conn
                  = wait_for_message_within (length (pending ?conn) + x) ?data 0 ?conn"
      unfolding b using wait_within_recv [OF cond r] False by simp
    have "cs = pending ?conn" by simp
    moreover have "length ?data < 4" using False by simp
    moreover have "?data @ concat (pending ?conn) = le32 n @ rest" using wire by simp
    ultimately obtain data' conn' where
      "wait_for_message_within (length (pending ?conn) + x) ?data 0 ?conn
         = Finished (Complete data' n conn') (length (pending conn') + x)"
      "data' @ concat (pending conn') = rest"
      "n \<le> int (length data')" "at_end conn' = at_end ?conn" "closed conn' = closed ?conn"
      using Cons.hyps(1) [of ?conn ?data] by blast
    then show ?thesis using step by simp
  next
    case True
    have "take 4 ?data = take 4 (?data @ concat cs)" using True by simp
    also have "\<dots> = le32 n" unfolding wire by simp
    finally have "read_number_of_bytes ?data = Inr (drop 4 ?data, n)"
      using assms(3,4) by (intro read_number_of_bytes_le32) simp_all
    then have step: "wait_for_message_within (length (pending conn) + x) data 0 conn
                  = wait_for_message_within (length (pending ?conn) + x) (drop 4 ?data) n ?conn"
      unfolding b using wait_within_recv [OF cond r] True by simp
    have "drop 4 ?data @ concat cs = drop 4 (?data @ concat cs)" using True by simp
    also have "\<dots> = rest" unfolding wire by simp
    finally have tail: "drop 4 ?data @ concat (pending ?conn) = rest" by simp
    then have "length rest = length (drop 4 ?data) + length (concat (pending ?conn))"
      by (metis length_append)
    then have "n \<le> int (length (drop 4 ?data) + length (concat (pending ?conn)))"
      using assms(5) by simp
    then obtain data' conn' where
      "wait_for_message_within (length (pending ?conn) + x) (drop 4 ?data) n ?conn
         = Finished (Complete data' n conn') (length (pending conn') + x)"
      "data' @ concat (pending conn') = drop 4 ?data @ concat (pending ?conn)"
      "n \<le> int (length data')" "at_end conn' = at_end ?conn" "closed conn' = closed ?conn"
      using wait_payload_within [OF assms(3), of "drop 4 ?data" ?conn x] by blast
    then show ?thesis using step tail by simp
  qed
qed

lemma wait_within_spin:
  assumes "pending conn = []" "at_end conn = Received []"
  shows "wait_for_message_within x [] 0 conn = WaitingInRecv [] 0 conn"
proof (induction x)
  case 0
  show ?case by simp
next
  case (Suc x)
  have "recv conn = (Received [], conn)" using assms by (simp add: recv_Nil)
  then show ?case using Suc by (simp add: Let_def)
qed

lemma wait_end_within:
  assumes "concat (pending conn) = []" "x = 0 \<or> at_end conn = Received []"
  shows "wait_for_message_within (length (pending conn) + x) [] 0 conn
           = WaitingInRecv [] 0 (conn\<lparr>pending := []\<rparr>)"
  using assms
proof (induction cs \<equiv> "pending conn" arbitrary: conn)
  case Nil
  have same: "conn\<lparr>pending := []\<rparr> = conn" using Nil.hyps by simp
  show ?case
  proof (cases "x = 0")
    case True
    then show ?thesis using Nil.hyps [symmetric] same by simp
  next
    case False
    then have "at_end conn = Received []" using Nil.prems(2) by simp
    then show ?thesis
      using wait_within_spin [of conn x] Nil.hyps [symmetric] same by simp
  qed
next
  case (Cons c cs)
  let ?conn = "conn\<lparr>pending := cs\<rparr>"
  have c: "c = []" and cs: "concat cs = []"
    using Cons.prems(1) Cons.hyps(2) [symmetric] by simp_all
  have r: "recv conn = (Received [], ?conn)"
    using Cons.hyps(2) c by (simp add: recv_Cons)
  have b: "length (pending conn) + x = Suc (length (pending ?conn) + x)"
    using Cons.hyps(2) [symmetric] by simp
  have "wait_for_message_within (length (pending conn) + x) [] 0 conn
          = wait_for_message_within (length (pending ?conn) + x) [] 0 ?conn"
    unfolding b using wait_within_recv [of "[]" 0 conn "[]" ?conn] r by simp
  also have "\<dots> = WaitingInRecv [] 0 (?conn\<lparr>pending := []\<rparr>)"
    using Cons.hyps(1) [of ?conn] cs Cons.prems(2) by simp
  finally show ?case by simp
qed

lemma run_loop_frame_within:
  assumes wire: "data @ concat (pending conn) = frame p @ rest"
    and p: "p \<noteq> []" "int (length p) < 4294967296"
  shows "\<exists>data' conn'.
           run_loop_within (length (pending conn) + x) handler h log data 0 conn =
             (case handler h p of
                Inl e \<Rightarrow> Ended \<lparr>outcome = Raised e, handled = log @ [p], handler_state = h,
                                conn_after = conn', close_calls = 0\<rparr>
              | Inr h' \<Rightarrow>
                  run_loop_within (length (pending conn') + x) handler h' (log @ [p]) data' 0 conn')
         \<and> data' @ concat (pending conn') = rest
         \<and> at_end conn' = at_end conn \<and> closed conn' = closed conn"
proof -
  let ?n = "int (length p)"
  let ?b = "length (pending conn) + x"
  have n: "0 < ?n" using p(1) by simp
  have wire': "data @ concat (pending conn) = le32 ?n @ (p @ rest)"
    using wire by (simp add: frame_def)
  have "\<exists>data1 n1 data2 conn'.
          (if (0::int) = 0 \<and> 4 \<le> length data then read_number_of_bytes data
           else Inr (data, 0)) = Inr (data1, n1)
        \<and> wait_for_message_within ?b data1 n1 conn
            = Finished (Complete data2 ?n conn') (length (pending conn') + x)
        \<and> data2 @ concat (pending conn') = p @ rest \<and> ?n \<le> int (length data2)
        \<and> at_end conn' = at_end conn \<and> closed conn' = closed conn"
  proof (cases "4 \<le> length data")
    case True
    have "take 4 data = take 4 (data @ concat (pending conn))" using True by simp
    also have "\<dots> = le32 ?n" unfolding wire' by simp
    finally have rd: "read_number_of_bytes data = Inr (drop 4 data, ?n)"
      using p(2) by (intro read_number_of_bytes_le32) simp_all
    have "drop 4 data @ concat (pending conn) = drop 4 (data @ concat (pending conn))"
      using True by simp
    also have "\<dots> = p @ rest" unfolding wire' by simp
    finally have tail: "drop 4 data @ concat (pending conn) = p @ rest" .
    then have "length (p @ rest) = length (drop 4 data) + length (concat (pending conn))"
      by (metis length_append)
    then have "?n \<le> int (length (drop 4 data) + length (concat (pending conn)))" by simp
    then obtain data2 conn' where
      "wait_for_message_within ?b (drop 4 data) ?n conn
         = Finished (Complete data2 ?n conn') (length (pending conn') + x)"
      "data2 @ concat (pending conn') = drop 4 data @ concat (pending conn)"
      "?n \<le> int (length data2)" "at_end conn' = at_end conn" "closed conn' = closed conn"
      using wait_payload_within [OF n, of "drop 4 data" conn x] by blast
    then show ?thesis using True rd tail by simp
  next
    case False
    then have "length data < 4" by simp
    moreover have "?n \<le> int (length (p @ rest))" by simp
    ultimately obtain data2 conn' where
      "wait_for_message_within ?b data 0 conn
         = Finished (Complete data2 ?n conn') (length (pending conn') + x)"
      "data2 @ concat (pending conn') = p @ rest"
      "?n \<le> int (length data2)" "at_end conn' = at_end conn" "closed conn' = closed conn"
      using wait_header_within [OF _ wire' n p(2), of x] by blast
    then show ?thesis using False by simp
  qed
  then obtain data1 n1 data2 conn' where
    hdr: "(if (0::int) = 0 \<and> 4 \<le> length data then read_number_of_bytes data
           else Inr (data, 0)) = Inr (data1, n1)"
    and w: "wait_for_message_within ?b data1 n1 conn
              = Finished (Complete data2 ?n conn') (length (pending conn') + x)"
    and d2: "data2 @ concat (pending conn') = p @ rest" and len: "?n \<le> int (length data2)"
    and keep: "at_end conn' = at_end conn" "closed conn' = closed conn"
    by blast
  have len': "length p \<le> length data2" using len by simp
  have "take (length p) data2 = take (length p) (data2 @ concat (pending conn'))"
    using len' by simp
  also have "\<dots> = p" unfolding d2 by simp
  finally have msg: "slice_to ?n data2 = p" by (simp add: slice_to_def)
  have "drop (length p) data2 @ concat (pending conn')
          = drop (length p) (data2 @ concat (pending conn'))"
    using len' by simp
  also have "\<dots> = rest" unfolding d2 by simp
  finally have rest: "slice_from ?n data2 @ concat (pending conn') = rest"
    by (simp add: slice_from_def)
  have "run_loop_within ?b handler h log data 0 conn =
          (case handler h p of
             Inl e \<Rightarrow> Ended \<lparr>outcome = Raised e, handled = log @ [p], handler_state = h,
                             conn_after = conn', close_calls = 0\<rparr>
           | Inr h' \<Rightarrow> run_loop_within (length (pending conn') + x) handler h' (log @ [p])
                        (slice_from ?n data2) 0 conn')"
    using hdr w msg by (subst run_loop_within.simps) (auto simp: Let_def split: sum.splits)
  then show ?thesis using rest keep by blast
qed

lemma run_loop_end_within:
  assumes "concat (pending conn) = []" "x = 0 \<or> at_end conn = Received []"
  shows "run_loop_within (length (pending conn) + x) handler h log [] 0 conn
           = StillRunning log h [] 0 (conn\<lparr>pending := []\<rparr>)"
  using wait_end_within [OF assms] by (subst run_loop_within.simps) simp

lemma run_loop_frames_within:
  assumes "data @ concat (pending conn) = concat (map frame ps)"
    and "\<forall>p\<in>set ps. p \<noteq> [] \<and> int (length p) < 4294967296"
    and "x = 0 \<or> at_end conn = Received []"
    and total: "\<And>h m. \<exists>h'. handler h m = Inr h'"
  shows "\<exists>h'. run_loop_within (length (pending conn) + x) handler h log data 0 conn
                = StillRunning (log @ ps) h' [] 0 (conn\<lparr>pending := []\<rparr>)"
  using assms(1-3)
proof (induction ps arbitrary: data conn h log)
  case Nil
  then have "data = []" "concat (pending conn) = []" by simp_all
  then show ?case using run_loop_end_within [of conn x handler h log] Nil.prems(3) by simp
next
  case (Cons p ps)
  have wire: "data @ concat (pending conn) = frame p @ concat (map frame ps)"
    using Cons.prems(1) by simp
  have p: "p \<noteq> []" "int (length p) < 4294967296" using Cons.prems(2) by simp_all
  obtain h' where h': "handler h p = Inr h'" using total by blast
  obtain data' conn' where
    step: "run_loop_within (length (pending conn) + x) handler h log data 0 conn
             = run_loop_within (length (pending conn') + x) handler h' (log @ [p]) data' 0 conn'"
    and rest: "data' @ concat (pending conn') = concat (map frame ps)"
    and keep: "at_end conn' = at_end conn" "closed conn' = closed conn"
    using run_loop_frame_within [where handler = handler and h = h and log = log and x = x,
                                 OF wire p] h'
    by auto
  have "\<forall>p\<in>set ps. p \<noteq> [] \<and> int (length p) < 4294967296" using Cons.prems(2) by simp
  moreover have "x = 0 \<or> at_end conn' = Received []" using keep Cons.prems(3) by simp
  ultimately obtain h'' where
    "run_loop_within (length (pending conn') + x) handler h' (log @ [p]) data' 0 conn'
       = StillRunning ((log @ [p]) @ ps) h'' [] 0 (conn'\<lparr>pending := []\<rparr>)"
    using Cons.IH [OF rest, of h' "log @ [p]"] by blast
  moreover have "conn'\<lparr>pending := []\<rparr> = conn\<lparr>pending := []\<rparr>"
    using keep by (intro connection.equality) simp_all
  ultimately show ?case using step by simp
qed

text \<open>Where the bounded run has ended, \<open>run\<close> has ended in the same way.\<close>

lemma wait_within_agrees:
  assumes "wait_for_message_within b data n conn = Finished ex b2"
  shows "wait_for_message data n conn = Some ex"
  using assms
proof (induction b data n conn rule: wait_for_message_within.induct)
  case (1 data n conn)
  then show ?case by (subst wait_for_message.simps) (auto split: if_splits)
next
  case (2 budget data n conn)
  show ?case
  proof (cases "data = [] \<or> n = 0 \<or> int (length data) < n")
    case False
    then show ?thesis using 2(3) by (subst wait_for_message.simps) auto
  next
    case True
    obtain res conn' where r: "recv conn = (res, conn')" by (cases "recv conn")
    show ?thesis
    proof (cases res)
      case RecvRaises
      then show ?thesis using 2(3) True r by (subst wait_for_message.simps) auto
    next
      case (Received rec)
      show ?thesis
      proof (cases "n = 0 \<and> 4 \<le> length (data @ rec)")
        case False
        then have "wait_for_message_within budget (data @ rec) n conn' = Finished ex b2"
          using 2(3) True r Received by (auto simp: Let_def)
        from 2(2) [OF True r [symmetric] Received refl False this]
        show ?thesis using True r Received False
          by (subst wait_for_message.simps) (auto simp: Let_def)
      next
        case hdr: True
        show ?thesis
        proof (cases "read_number_of_bytes (data @ rec)")
          case (Inl e)
          then show ?thesis using 2(3) True r Received hdr
            by (subst wait_for_message.simps) (auto simp: Let_def)
        next
          case (Inr p)
          obtain d' m' where p: "p = (d', m')" by (cases p)
          then have "wait_for_message_within budget d' m' conn' = Finished ex b2"
            using 2(3) True r Received hdr Inr by (auto simp: Let_def)
          from 2(1) [OF True r [symmetric] Received refl hdr Inr p [symmetric] this]
          show ?thesis using True r Received hdr Inr p
            by (subst wait_for_message.simps) (auto simp: Let_def)
        qed
      qed
    qed
  qed
qed

lemma run_loop_within_agrees:
  assumes "run_loop_within b handler h log data n conn = Ended r"
  shows "run_loop handler h log data n conn = Some r"
  using assms
proof (induction b handler h log data n conn rule: run_loop_within.induct)
  case (1 budget handler h log data n conn)
  obtain data1 n1 where hdr:
    "(if n = 0 \<and> 4 \<le> length data then read_number_of_bytes data else Inr (data, n))
       = Inr (data1, n1)"
    using header_always_read by blast
  show ?case
  proof (cases "wait_for_message_within budget data1 n1 conn")
    case (WaitingInRecv d m c)
    then show ?thesis using 1(2) hdr by (subst (asm) run_loop_within.simps) simp
  next
    case (Finished ex b2)
    note w = wait_within_agrees [OF Finished]
    show ?thesis
    proof (cases ex)
      case (Disconnected c)
      then show ?thesis using 1(2) hdr Finished w
        by (subst run_loop.simps, subst (asm) run_loop_within.simps) simp
    next
      case (Failed e c)
      then show ?thesis using 1(2) hdr Finished w
        by (subst run_loop.simps, subst (asm) run_loop_within.simps) simp
    next
      case (Complete d m c)
      show ?thesis
      proof (cases "handler h (slice_to m d)")
        case (Inl e)
        then show ?thesis using 1(2) hdr Finished w Complete
          by (subst run_loop.simps, subst (asm) run_loop_within.simps) (simp add: Let_def)
      next
        case (Inr h')
        then have "run_loop_within b2 handler h' (log @ [slice_to m d]) (slice_from m d) 0 c
                     = Ended r"
          using 1(2) hdr Finished Complete
          by (subst (asm) run_loop_within.simps) (simp add: Let_def)
        from 1(1) [OF hdr refl Finished Complete refl refl Inr this]
        show ?thesis using hdr w Complete Inr
          by (subst run_loop.simps) (simp add: Let_def)
      qed
    qed
  qed
qed

lemma run_within_agrees:
  assumes "run_within b handler h conn = Ended r"
  shows "run handler h conn = Some r"
proof (cases "run_loop_within b handler h [] [] 0 conn")
  case (Ended r0)
  then show ?thesis using assms run_loop_within_agrees [OF Ended]
    by (simp add: run_within_def run_def)
next
  case (StillRunning log h' d m c)
  then show ?thesis using assms by (simp add: run_within_def)
qed

subsection \<open>Delivery of the payloads\<close>




text \<open>
  Claim C2, as amended. For a payload \<open>p\<close> of at least one byte and fewer than
  \<open>2^31 - 1\<close>, \<open>pack_obj\<close> returns the frame of \<open>p\<close>. However the frame is cut into
  chunks and whatever the connection does after them, once \<open>recv\<close> has been called as
  many times as there are chunks \<open>_handle_msg\<close> has been called exactly once, with
  \<open>p\<close> (whether or not the handler then raised). After an orderly close by the peer
  that is still so after any number of further calls of \<open>recv\<close>, and when \<open>recv\<close>
  raises \<open>run\<close> ends with that one call made.
\<close>

theorem run_roundtrip_nonempty_payload:
  fixes handler :: "'h \<Rightarrow> bytes \<Rightarrow> error + 'h"
  assumes msg: "packb obj = Inr p"
    and size: "p \<noteq> []" "int (length p) < 2147483647"
    and chunks: "concat (pending conn) = frame p"
  shows "pack_obj packb obj = Inr (frame p)
       \<and> handled_within (run_within (length (pending conn)) handler h0 conn) = [p]
       \<and> (at_end conn = Received [] \<longrightarrow>
            (\<forall>x. handled_within (run_within (length (pending conn) + x) handler h0 conn) = [p]))
       \<and> (at_end conn = RecvRaises \<longrightarrow>
            (\<exists>r. run handler h0 conn = Some r \<and> handled r = [p]))"
proof -
  have wire: "[] @ concat (pending conn) = frame p @ []" using chunks by simp
  have small: "int (length p) < 4294967296" using size(2) by simp
  have within: "handled_within (run_within (length (pending conn) + x) handler h0 conn) = [p]"
    if x: "x = 0 \<or> at_end conn = Received []" for x
  proof -
    obtain data' conn' where
      step: "run_loop_within (length (pending conn) + x) handler h0 [] [] 0 conn =
               (case handler h0 p of
                  Inl e \<Rightarrow> Ended \<lparr>outcome = Raised e, handled = [] @ [p], handler_state = h0,
                                  conn_after = conn', close_calls = 0\<rparr>
                | Inr h' \<Rightarrow>
                    run_loop_within (length (pending conn') + x) handler h' ([] @ [p]) data' 0 conn')"
      and rest: "data' @ concat (pending conn') = []"
      and keep: "at_end conn' = at_end conn"
      using run_loop_frame_within
              [where handler = handler and h = h0 and log = "[]" and x = x, OF wire size(1) small]
      by blast
    have e: "data' = []" "concat (pending conn') = []" "x = 0 \<or> at_end conn' = Received []"
      using rest keep x by simp_all
    have "\<And>h'. run_loop_within (length (pending conn') + x) handler h' ([] @ [p]) data' 0 conn'
             = StillRunning ([] @ [p]) h' [] 0 (conn'\<lparr>pending := []\<rparr>)"
      using run_loop_end_within [OF e(2,3)] e(1) by simp
    then have "handled_within (run_loop_within (length (pending conn) + x) handler h0 [] [] 0 conn)
                 = [p]"
      using step by (cases "handler h0 p") simp_all
    then show ?thesis
      by (cases "run_loop_within (length (pending conn) + x) handler h0 [] [] 0 conn")
         (simp_all add: run_within_def)
  qed
  have returns: "\<exists>r. run handler h0 conn = Some r \<and> handled r = [p]"
    if raises: "at_end conn = RecvRaises"
  proof -
    obtain data' conn' where
      step: "run_loop handler h0 [] [] 0 conn =
               (case handler h0 p of
                  Inl e \<Rightarrow> Some \<lparr>outcome = Raised e, handled = [] @ [p], handler_state = h0,
                                 conn_after = conn', close_calls = 0\<rparr>
                | Inr h' \<Rightarrow> run_loop handler h' ([] @ [p]) data' 0 conn')"
      and rest: "data' @ concat (pending conn') = []"
      and keep: "at_end conn' = at_end conn"
      using run_loop_frame [where handler = handler and h = h0 and log = "[]", OF wire size(1) small]
      by blast
    have "data' = []" "concat (pending conn') = []" "at_end conn' = RecvRaises"
      using rest keep raises by simp_all
    then have "\<And>h'. run_loop handler h' ([] @ [p]) data' 0 conn' =
        Some \<lparr>outcome = Returned, handled = [] @ [p], handler_state = h',
              conn_after = conn'\<lparr>pending := []\<rparr>, close_calls = 0\<rparr>"
      using run_loop_end [where conn = conn' and handler = handler and log = "[] @ [p]"] by simp
    then have "\<exists>r. run_loop handler h0 [] [] 0 conn = Some r \<and> handled r = [p]"
      using step by (cases "handler h0 p") simp_all
    then show ?thesis by (auto simp: run_def)
  qed
  show ?thesis
    using pack_obj_frame [of packb obj p] msg size(2) within [of 0] within returns by simp
qed

theorem run_roundtrip_nonempty_payload_witness:
  "pack_obj Inr [7, 8, 9] = Inr [3, 0, 0, 0, 7, 8, 9]
   \<and> handled_within (run_within (Suc (Suc 0)) keep_msg []
        \<lparr>pending = [[3, 0, 0, 0, 7], [8, 9]], at_end = Received [], closed = False\<rparr>)
       = [[7, 8, 9]]
   \<and> (\<forall>x. handled_within (run_within (Suc (Suc x)) failing_handler ()
        \<lparr>pending = [[3, 0, 0, 0, 7], [8, 9]], at_end = Received [], closed = False\<rparr>)
       = [[7, 8, 9]])
   \<and> (\<exists>r. run keep_msg [] \<lparr>pending = [[3, 0, 0, 0, 7], [8, 9]], at_end = RecvRaises,
                            closed = False\<rparr> = Some r
          \<and> handled r = [[7, 8, 9]])"
proof -
  have f: "frame [7, 8, 9] = [3, 0, 0, 0, 7, 8, 9]" by (simp add: frame_def le32_def)
  have a: "pack_obj Inr [7, 8, 9] = Inr [3, 0, 0, 0, 7, 8, 9]
     \<and> handled_within (run_within (Suc (Suc 0)) keep_msg []
          \<lparr>pending = [[3, 0, 0, 0, 7], [8, 9]], at_end = Received [], closed = False\<rparr>)
         = [[7, 8, 9]]"
    using run_roundtrip_nonempty_payload
            [where packb = Inr and obj = "[7, 8, 9]" and p = "[7, 8, 9]"
               and conn = "\<lparr>pending = [[3, 0, 0, 0, 7], [8, 9]], at_end = Received [],
                             closed = False\<rparr>"
               and handler = keep_msg and ?h0.0 = "[]"]
    by (simp add: f)
  have b: "(\<forall>x. handled_within (run_within (Suc (Suc x)) failing_handler ()
        \<lparr>pending = [[3, 0, 0, 0, 7], [8, 9]], at_end = Received [], closed = False\<rparr>)
       = [[7, 8, 9]])"
    using run_roundtrip_nonempty_payload
            [where packb = Inr and obj = "[7, 8, 9]" and p = "[7, 8, 9]"
               and conn = "\<lparr>pending = [[3, 0, 0, 0, 7], [8, 9]], at_end = Received [],
                             closed = False\<rparr>"
               and handler = failing_handler and ?h0.0 = "()"]
    by (simp add: f)
  have c: "\<exists>r. run keep_msg [] \<lparr>pending = [[3, 0, 0, 0, 7], [8, 9]], at_end = RecvRaises,
                            closed = False\<rparr> = Some r
          \<and> handled r = [[7, 8, 9]]"
    using run_roundtrip_nonempty_payload
            [where packb = Inr and obj = "[7, 8, 9]" and p = "[7, 8, 9]"
               and conn = "\<lparr>pending = [[3, 0, 0, 0, 7], [8, 9]], at_end = RecvRaises,
                             closed = False\<rparr>"
               and handler = keep_msg and ?h0.0 = "[]"]
    by (simp add: f)
  show ?thesis using a b c by blast
qed

text \<open>
  Claim C2 as stated fails for the empty payload: its frame is the prefix \<open>0\<close> alone, and
  \<open>run\<close> on it never calls the handler.
\<close>

theorem run_never_handles_empty_payload:
  "pack_obj Inr [] = Inr [0, 0, 0, 0]
   \<and> run keep_msg [] \<lparr>pending = [[0, 0, 0, 0]], at_end = RecvRaises, closed = False\<rparr>
       = Some \<lparr>outcome = Returned, handled = [], handler_state = [],
               conn_after = \<lparr>pending = [], at_end = RecvRaises, closed = True\<rparr>,
               close_calls = 1\<rparr>"
  by code_simp

subsection \<open>A connection that the peer closes\<close>

text \<open>
  Claim C5 at its failing input. The peer sends the frame of \<open>'A'\<close> and closes the
  connection in an orderly way. \<open>run\<close> handles the message and then never ends: after
  any number of calls of \<open>recv\<close> it is still about to call \<open>recv\<close>, and the connection
  is not closed.
\<close>

theorem run_never_closes_after_orderly_close:
  "run keep_msg [] \<lparr>pending = [[1, 0, 0, 0, 65]], at_end = Received [], closed = False\<rparr> = None
   \<and> (\<forall>x. \<exists>h'. run_within (Suc x) keep_msg []
                    \<lparr>pending = [[1, 0, 0, 0, 65]], at_end = Received [], closed = False\<rparr>
                 = StillRunning [[65]] h' [] 0
                     \<lparr>pending = [], at_end = Received [], closed = False\<rparr>)"
proof -
  let ?conn = "\<lparr>pending = [[1, 0, 0, 0, 65]], at_end = Received [], closed = False\<rparr>"
  have tot: "\<And>h m. \<exists>h'. keep_msg h m = Inr h'" by (simp add: keep_msg_def)
  have never: "run keep_msg [] ?conn = None"
    using tot by (simp add: run_never_ends_at_eof)
  have wire: "[] @ concat (pending ?conn) = concat (map frame [[65]])"
    by (simp add: frame_def le32_def)
  have "\<exists>h'. run_within (Suc x) keep_msg [] ?conn
               = StillRunning [[65]] h' [] 0 \<lparr>pending = [], at_end = Received [], closed = False\<rparr>"
    for x
  proof -
    obtain h' where
      "run_loop_within (length (pending ?conn) + x) keep_msg [] [] [] 0 ?conn
         = StillRunning ([] @ [[65]]) h' [] 0 (?conn\<lparr>pending := []\<rparr>)"
      using run_loop_frames_within
              [where handler = keep_msg and h = "[]" and log = "[]" and x = x, OF wire _ _ tot]
      by auto
    then show ?thesis by (simp add: run_within_def)
  qed
  then show ?thesis using never by blast
qed

subsection \<open>The server\<close>

lemma getattr_sock_shutdown: "getattr_sock (shutdown s) = None"
  by (auto simp: shutdown_def getattr_sock_def close_socket_def Let_def
           split: attribute.splits option.splits)

lemma shutdown_event_shutdown: "shutdown_event (shutdown s)"
  by (auto simp: shutdown_def getattr_sock_def close_socket_def Let_def
           split: attribute.splits option.splits)

lemma shutdown_no_socket: "getattr_sock s = None \<Longrightarrow> shutdown s = s\<lparr>shutdown_event := True\<rparr>"
  by (simp add: shutdown_def Let_def getattr_sock_def)

lemma shutdown_shutdown: "shutdown (shutdown s) = shutdown s"
proof -
  have "shutdown (shutdown s) = (shutdown s)\<lparr>shutdown_event := True\<rparr>"
    using getattr_sock_shutdown by (rule shutdown_no_socket)
  then show ?thesis using shutdown_event_shutdown [of s] by simp
qed

lemma accept_loop_after_shutdown: "shutdown_event s \<Longrightarrow> accept_loop s ps = (LoopLeft, s)"
  by (cases ps) simp_all

lemma shutdown_closes:
  assumes "sock_attr s = Object a" "sockets s a = Some sk"
  shows "sockets (shutdown s) a = Some (sk\<lparr>is_closed := True, times_closed := times_closed sk + 1\<rparr>)"
    and "sock_attr (shutdown s) = PyNone"
  using assms by (simp_all add: shutdown_def getattr_sock_def close_socket_def Let_def)

text \<open>
  Claim C7. After \<open>shutdown()\<close> the server is as a second \<open>shutdown()\<close> leaves it:
  \<open>_sock\<close> refers to no socket, \<open>is_alive()\<close> is false and the accept loop leaves
  at once, accepting nothing. If \<open>_sock\<close> referred to a socket, the first call has set
  \<open>_sock\<close> to \<open>None\<close> and closed that socket once, and the second call does not close
  it again. \<open>shutdown\<close> raises nothing: it is a total function.
\<close>

theorem shutdown_is_idempotent:
  "shutdown (shutdown s) = shutdown s
   \<and> \<not> is_alive (shutdown s)
   \<and> getattr_sock (shutdown s) = None
   \<and> accept_loop (shutdown s) ps = (LoopLeft, shutdown s)
   \<and> (sock_attr s = Object a \<and> sockets s a = Some sk \<longrightarrow>
        sock_attr (shutdown s) = PyNone
      \<and> sockets (shutdown s) a
           = Some (sk\<lparr>is_closed := True, times_closed := times_closed sk + 1\<rparr>)
      \<and> sockets (shutdown (shutdown s)) a
           = Some (sk\<lparr>is_closed := True, times_closed := times_closed sk + 1\<rparr>))"
proof (intro conjI impI)
  show "shutdown (shutdown s) = shutdown s" by (rule shutdown_shutdown)
  show "\<not> is_alive (shutdown s)"
    by (simp add: is_alive_def getattr_sock_shutdown split: option.splits)
  show "getattr_sock (shutdown s) = None" by (rule getattr_sock_shutdown)
  show "accept_loop (shutdown s) ps = (LoopLeft, shutdown s)"
    using shutdown_event_shutdown by (rule accept_loop_after_shutdown)
next
  assume "sock_attr s = Object a \<and> sockets s a = Some sk"
  then have a: "sock_attr s = Object a" "sockets s a = Some sk" by simp_all
  show "sock_attr (shutdown s) = PyNone" using a by (rule shutdown_closes)
  show "sockets (shutdown s) a
          = Some (sk\<lparr>is_closed := True, times_closed := times_closed sk + 1\<rparr>)"
    using a by (rule shutdown_closes)
  then show "sockets (shutdown (shutdown s)) a
          = Some (sk\<lparr>is_closed := True, times_closed := times_closed sk + 1\<rparr>)"
    by (simp add: shutdown_shutdown)
qed

theorem shutdown_is_idempotent_witness:
  "is_alive running_server
   \<and> \<not> is_alive (shutdown running_server)
   \<and> shutdown (shutdown running_server) = shutdown running_server
   \<and> sockets (shutdown running_server) 0
        = Some \<lparr>bound_port = 5000, is_closed = True, times_closed = 1\<rparr>
   \<and> sockets (shutdown (shutdown running_server)) 0
        = Some \<lparr>bound_port = 5000, is_closed = True, times_closed = 1\<rparr>"
proof -
  have a: "sock_attr running_server = Object 0"
    "sockets running_server 0 = Some \<lparr>bound_port = 5000, is_closed = False, times_closed = 0\<rparr>"
    by (simp_all add: running_server_def)
  have alive: "is_alive running_server"
    by (simp add: running_server_def is_alive_def getattr_sock_def)
  show ?thesis
    using shutdown_is_idempotent
            [of running_server "[]" 0 "\<lparr>bound_port = 5000, is_closed = False, times_closed = 0\<rparr>"]
          a alive
    by simp
qed

lemma accept_loop_handler_failure:
  assumes "\<not> shutdown_event s" "sock_attr s = Object a"
    and "\<not> shutdown_called p" "select_result p = Inr True" "accept_result p = Inr c"
        "start_raises p"
  shows "accept_loop s (p # ps) = accept_loop (s\<lparr>tracebacks := tracebacks s + 1\<rparr>) ps"
  using assms by simp

lemma accept_loop_exit_without_shutdown:
  assumes "\<not> shutdown_event s" "sock_attr s = Object a" "\<forall>p\<in>set ps. \<not> shutdown_called p"
  shows "fst (accept_loop s ps) = BlockedInSelect
       \<or> (\<exists>p\<in>set ps. \<exists>e. fst (accept_loop s ps) = LoopRaised e
             \<and> (select_result p = Inl e \<or> accept_result p = Inl e))"
  using assms
proof (induction ps arbitrary: s)
  case Nil
  then show ?case by simp
next
  case (Cons p ps)
  have np: "\<not> shutdown_called p" and rest: "\<forall>p\<in>set ps. \<not> shutdown_called p"
    using Cons.prems(3) by simp_all
  show ?case
  proof (cases "select_result p")
    case (Inl e)
    then show ?thesis using Cons.prems(1,2) np by simp
  next
    case (Inr readable)
    show ?thesis
    proof (cases readable)
      case False
      then have "accept_loop s (p # ps) = accept_loop s ps"
        using Cons.prems(1,2) np Inr by simp
      then show ?thesis using Cons.IH [OF Cons.prems(1,2) rest] by auto
    next
      case True
      show ?thesis
      proof (cases "accept_result p")
        case (Inl e)
        then show ?thesis using Cons.prems(1,2) np Inr True by simp
      next
        case acc: (Inr c)
        let ?s = "if start_raises p then s\<lparr>tracebacks := tracebacks s + 1\<rparr>
                  else s\<lparr>started := started s @ [c]\<rparr>"
        have "accept_loop s (p # ps) = accept_loop ?s ps"
          using Cons.prems(1,2) np Inr True acc by simp
        moreover have "\<not> shutdown_event ?s" "sock_attr ?s = Object a"
          using Cons.prems(1,2) by simp_all
        ultimately show ?thesis using Cons.IH [OF _ _ rest, of ?s] by auto
      qed
    qed
  qed
qed

text \<open>
  Claim C8, as amended. While the server is not shut down and \<open>_sock\<close> holds the
  listening socket: a pass in which a connection is accepted and constructing or starting
  its handler raises leaves the loop running on the following passes, with one more
  traceback printed and nothing else changed; and as long as no thread calls
  \<open>shutdown()\<close>, the loop either goes on waiting in \<open>select\<close> or is left by an
  exception that \<open>select\<close> or \<open>accept\<close> raised in one of the passes.
\<close>

theorem accept_loop_survives_handler_failure:
  assumes "\<not> shutdown_event s" "sock_attr s = Object a"
  shows "(\<not> shutdown_called p \<and> select_result p = Inr True \<and> accept_result p = Inr c
            \<and> start_raises p \<longrightarrow>
          accept_loop s (p # ps) = accept_loop (s\<lparr>tracebacks := tracebacks s + 1\<rparr>) ps)
       \<and> ((\<forall>p\<in>set ps. \<not> shutdown_called p) \<longrightarrow>
            fst (accept_loop s ps) = BlockedInSelect
          \<or> (\<exists>p\<in>set ps. \<exists>e. fst (accept_loop s ps) = LoopRaised e
                \<and> (select_result p = Inl e \<or> accept_result p = Inl e)))"
  using accept_loop_handler_failure [OF assms] accept_loop_exit_without_shutdown [OF assms] by blast

theorem accept_loop_survives_handler_failure_witness:
  "accept_loop running_server (handler_fails 7 # [handler_starts 8])
     = accept_loop (running_server\<lparr>tracebacks := tracebacks running_server + 1\<rparr>)
         [handler_starts 8]
   \<and> fst (accept_loop running_server [handler_starts 8]) = BlockedInSelect
   \<and> started (snd (accept_loop running_server (handler_fails 7 # [handler_starts 8]))) = [8]
   \<and> tracebacks (snd (accept_loop running_server (handler_fails 7 # [handler_starts 8]))) = 1"
proof -
  have s: "\<not> shutdown_event running_server" "sock_attr running_server = Object 0"
    by (simp_all add: running_server_def)
  have ev: "started (snd (accept_loop running_server (handler_fails 7 # [handler_starts 8]))) = [8]"
    "tracebacks (snd (accept_loop running_server (handler_fails 7 # [handler_starts 8]))) = 1"
    by (simp_all add: running_server_def handler_fails_def handler_starts_def)
  have b: "fst (accept_loop running_server [handler_starts 8]) = BlockedInSelect"
    by (simp add: running_server_def handler_starts_def)
  show ?thesis
    using accept_loop_survives_handler_failure
            [OF s, of "handler_fails 7" 7 "[handler_starts 8]"] ev b
    by (simp add: handler_fails_def)
qed

text \<open>
  Claim C8 as stated fails: without any call of \<open>shutdown()\<close>, an exception of
  \<open>accept\<close> leaves the loop, and the connection of the next pass is not accepted; the
  \<open>finally\<close> block then shuts the server down.
\<close>

theorem accept_loop_stops_when_accept_raises:
  "\<not> shutdown_event running_server
   \<and> \<not> shutdown_called accept_fails
   \<and> accept_loop running_server [accept_fails, handler_starts 8]
       = (LoopRaised SocketError, running_server)
   \<and> fst (serve_loop_finally running_server [accept_fails, handler_starts 8])
       = LoopRaised SocketError
   \<and> started (snd (serve_loop_finally running_server [accept_fails, handler_starts 8])) = []"
  by (simp add: running_server_def accept_fails_def handler_starts_def serve_loop_finally_def
                shutdown_def getattr_sock_def close_socket_def)

subsection \<open>The port of the server\<close>

lemma wait_for_condition_now:
  "condition s \<Longrightarrow> wait_for_condition condition timeout initial s ts = (Some True, s)"
  by (cases ts) simp_all

lemma get_port_bound:
  assumes "sock_attr s = Object a" "sockets s a = Some sk" "\<not> is_closed sk"
  shows "get_port s initial ts = Some (Inr (bound_port sk))"
proof -
  have "hasattr_sock s" using assms(1) by (simp add: hasattr_sock_def)
  then show ?thesis using assms
    by (simp add: get_port_def wait_for_condition_now getsockname_port_def)
qed

lemma get_port_after_startup:
  assumes "sock_attr s = Unset"
    and "\<forall>t\<in>set before. startup t = None \<and> clock t - initial \<le> 5000"
    and "startup t = Some (addr, port)" "clock t - initial \<le> 5000"
  shows "get_port s initial (before @ t # after) = Some (Inr port)"
proof -
  have "wait_for_condition hasattr_sock 5000 initial s (before @ t # after)
          = (Some True, assign_sock addr port s)"
    using assms(1,2)
  proof (induction before)
    case Nil
    have "hasattr_sock (assign_sock addr port s)"
      by (simp add: hasattr_sock_def assign_sock_def)
    then show ?case using Nil assms(3,4)
      by (simp add: hasattr_sock_def meanwhile_def wait_for_condition_now)
  next
    case (Cons b before)
    then show ?case by (simp add: hasattr_sock_def meanwhile_def)
  qed
  then show ?thesis by (simp add: get_port_def getsockname_port_def assign_sock_def)
qed

lemma wait_for_condition_timeout:
  assumes "\<not> condition s"
    and "\<forall>t\<in>set before. startup t = None \<and> clock t - initial \<le> timeout"
    and "clock t - initial > timeout"
  shows "wait_for_condition condition timeout initial s (before @ t # after) = (Some False, s)"
  using assms(2)
proof (induction before)
  case Nil
  then show ?case using assms(1,3) by simp
next
  case (Cons b before)
  then show ?case using assms(1) by (simp add: meanwhile_def)
qed

lemma get_port_not_started:
  assumes "sock_attr s = Unset"
    and "\<forall>t\<in>set before. startup t = None \<and> clock t - initial \<le> 5000"
    and "clock t - initial > 5000"
  shows "get_port s initial (before @ t # after) = Some (Inl AttributeError)"
proof -
  have "\<not> hasattr_sock s" using assms(1) by (simp add: hasattr_sock_def)
  then have "wait_for_condition hasattr_sock 5000 initial s (before @ t # after) = (Some False, s)"
    using assms(2,3) by (rule wait_for_condition_timeout)
  then show ?thesis using assms(1) by (simp add: get_port_def getsockname_port_def)
qed

lemma getsockname_port_never_AssertionError: "getsockname_port s \<noteq> Inl AssertionError"
  by (simp add: getsockname_port_def split: attribute.splits option.splits)

lemma get_port_never_AssertionError: "get_port s initial ts \<noteq> Some (Inl AssertionError)"
  by (auto simp: get_port_def getsockname_port_never_AssertionError split: prod.splits option.splits)

text \<open>
  Claim C9 at its failing input. On a server that was never started, \<open>get_port()\<close> waits
  until the timeout and then raises \<open>AttributeError\<close>, from reading \<open>self._sock\<close>; its
  docstring promises \<open>AssertionError\<close>, which is what \<open>assert_waited_condition\<close> raises
  on the same ticks. After \<open>shutdown()\<close> it raises \<open>AttributeError\<close> as well. When the
  server thread assigns the socket during the wait, \<open>get_port()\<close> returns the port the
  socket is bound to.
\<close>

theorem get_port_raises_AttributeError:
  "get_port init_server 0 [\<lparr>clock = 10, startup = None\<rparr>, \<lparr>clock = 5001, startup = None\<rparr>]
     = Some (Inl AttributeError)
   \<and> fst (assert_waited_condition hasattr_sock 5000 0 init_server
            [\<lparr>clock = 10, startup = None\<rparr>, \<lparr>clock = 5001, startup = None\<rparr>])
       = Some (Inl AssertionError)
   \<and> get_port (shutdown running_server) 0 [] = Some (Inl AttributeError)
   \<and> get_port init_server 0 [\<lparr>clock = 10, startup = Some (0, 40123)\<rparr>] = Some (Inr 40123)"
  by (simp add: get_port_def getsockname_port_def hasattr_sock_def init_server_def meanwhile_def
                assign_sock_def running_server_def shutdown_def getattr_sock_def close_socket_def)

end
